theory Spec2Isabelle
  imports Complex_Main "HOL-Library.Word"
begin

section \<open>Data model of core/divelist.c\<close>

text \<open>
  Dives and trips are heap objects that the tables, the trips and \<open>current_dive\<close>
  reference by address, so the model keeps an explicit store: a dive pointer is a
  \<open>dive_ref\<close>, a trip pointer a \<open>trip_ref\<close>, \<open>NULL\<close> is \<open>None\<close>, and the two
  heaps map addresses to the structs. A table (\<open>struct dive_table\<close>,
  \<open>struct trip_table\<close>) is the list of its first \<open>nr\<close> entries.

  The structs are declared in dive.h, which is not among the sources; the records
  list the fields that divelist.c reads or writes. \<open>dive_id\<close> and \<open>dive_when\<close>
  are \<open>id\<close> and \<open>when\<close>, \<open>duration\<close> is \<open>duration.seconds\<close>,
  \<open>dive_location\<close> is what \<open>get_dive_location\<close> returns, \<open>cylinders\<close> is the array
  \<open>cylinder[MAX_CYLINDERS]\<close>, \<open>dc_duration\<close> and \<open>dc_meandepth\<close> are
  \<open>dc.duration.seconds\<close> and \<open>dc.meandepth.mm\<close>. Of a cylinder, \<open>cyl_start\<close>,
  \<open>cyl_end\<close>, \<open>sample_start\<close> and \<open>sample_end\<close> are the \<open>mbar\<close> values of
  \<open>start\<close>, \<open>end\<close>, \<open>sample_start\<close> and \<open>sample_end\<close>; \<open>size_mliter\<close> is its
  volume, which only the example \<open>gas_volume\<close> below looks at.

  Timestamps (\<open>timestamp_t\<close>), dive numbers and ids are signed C integers; signed
  overflow is undefined in C, so they are mathematical integers here.
  \<open>amount_selected\<close> is an \<open>unsigned int\<close>, whose arithmetic wraps: a 32-bit word.
  A \<open>char *\<close> is a \<open>string option\<close>. \<open>next_trip\<close> and \<open>next_dive\<close> are the
  allocator: the addresses the next allocated trip and dive will get.
\<close>

type_synonym dive_ref = nat
type_synonym trip_ref = nat

record cylinder =
  cyl_start :: int
  cyl_end :: int
  sample_start :: int
  sample_end :: int
  size_mliter :: int

record dive =
  dive_id :: int
  dive_when :: int
  number :: int
  selected :: bool
  hidden_by_filter :: bool
  notrip :: bool
  divetrip :: "trip_ref option"
  duration :: int
  dive_location :: "string option"
  cylinders :: "cylinder list"
  dc_duration :: int
  dc_meandepth :: int

record dive_trip =
  location :: "string option"
  trip_notes :: "string option"
  autogen :: bool
  dives :: "dive_ref list"

datatype error = AssertionFailed | OutOfBounds

record divelist =
  dive_heap :: "dive_ref \<Rightarrow> dive"
  trip_heap :: "trip_ref \<Rightarrow> dive_trip"
  dive_table :: "dive_ref list"
  trip_table :: "trip_ref list"
  amount_selected :: "32 word"
  current_dive :: "dive_ref option"
  autogroup :: bool
  next_trip :: trip_ref
  next_dive :: dive_ref

section \<open>Ordered tables (the MAKE_... macros)\<close>

text \<open>\<open>MAKE_GET_IDX\<close>: the first index holding the pointer, \<open>-1\<close> on a miss.\<close>

fun get_idx_from :: "'a list \<Rightarrow> 'a \<Rightarrow> int \<Rightarrow> int" where
  "get_idx_from [] item i = -1"
| "get_idx_from (x # xs) item i = (if x = item then i else get_idx_from xs item (i + 1))"

definition get_idx_in_table :: "'a list \<Rightarrow> 'a \<Rightarrow> int" where
  "get_idx_in_table t item = get_idx_from t item 0"

text \<open>
  \<open>MAKE_REMOVE_FROM\<close>: entries after \<open>idx\<close> move one slot down and \<open>nr\<close> drops by
  one. For \<open>idx \<ge> nr\<close> the loop body never runs and the last entry is the one lost.
  Every caller in the file passes an index it has just looked up.
\<close>

definition remove_from_table :: "'a list \<Rightarrow> nat \<Rightarrow> 'a list" where
  "remove_from_table t idx =
     (if idx < length t then take idx t @ drop (Suc idx) t else butlast t)"

text \<open>
  \<open>MAKE_ADD_TO\<close> for \<open>idx \<le> nr\<close>: the item lands at \<open>idx\<close>, the tail moves up.
  (For \<open>idx > nr\<close> the C loop stores nothing and leaves an unwritten slot; for
  \<open>idx < 0\<close> it writes out of bounds. The one caller with a free index,
  \<open>add_single_dive\<close>, checks the range in the model.)
\<close>

definition add_to_table :: "'a list \<Rightarrow> nat \<Rightarrow> 'a \<Rightarrow> 'a list" where
  "add_to_table t idx item = take idx t @ item # drop idx t"

text \<open>\<open>MAKE_GET_INSERTION_INDEX\<close>: the first \<open>i\<close> with \<open>lt item t[i]\<close>, else \<open>nr\<close>.\<close>

fun get_insertion_index :: "('a \<Rightarrow> 'a \<Rightarrow> bool) \<Rightarrow> 'a list \<Rightarrow> 'a \<Rightarrow> nat" where
  "get_insertion_index lt [] item = 0"
| "get_insertion_index lt (x # xs) item =
     (if lt item x then 0 else Suc (get_insertion_index lt xs item))"

section \<open>Strings\<close>

text \<open>
  Modelled from the spec: \<open>empty_string\<close> and \<open>copy_string\<close> are declared in
  subsurface-string.h, which is not among the sources. A string is empty when it is
  \<open>NULL\<close> or has no characters; \<open>copy_string\<close> duplicates a non-empty string and
  gives \<open>NULL\<close> for an empty one.
\<close>

definition empty_string :: "string option \<Rightarrow> bool" where
  "empty_string s = (case s of None \<Rightarrow> True | Some cs \<Rightarrow> cs = [])"

definition copy_string :: "string option \<Rightarrow> string option" where
  "copy_string s = (if empty_string s then None else s)"

definition copy_non_empty_string :: "string option \<Rightarrow> string option \<Rightarrow> string option" where
  "copy_non_empty_string a b = copy_string (if empty_string b then a else b)"

section \<open>Trips\<close>

text \<open>\<open>alloc_trip\<close>: \<open>calloc\<close> gives a zeroed trip at an address not in use.\<close>

definition zero_trip :: dive_trip where
  "zero_trip = \<lparr>location = None, trip_notes = None, autogen = False, dives = []\<rparr>"

definition alloc_trip :: "divelist \<Rightarrow> trip_ref \<times> divelist" where
  "alloc_trip s =
     (next_trip s,
      s\<lparr>trip_heap := (trip_heap s)(next_trip s := zero_trip), next_trip := Suc (next_trip s)\<rparr>)"

definition combine_trips :: "trip_ref \<Rightarrow> trip_ref \<Rightarrow> divelist \<Rightarrow> trip_ref \<times> divelist" where
  "combine_trips trip_a trip_b s =
     (let (trip, s1) = alloc_trip s;
          s2 = s1\<lparr>trip_heap := (trip_heap s1)(trip := (trip_heap s1 trip)
                 \<lparr>location := copy_non_empty_string (location (trip_heap s1 trip_a))
                                                    (location (trip_heap s1 trip_b))\<rparr>)\<rparr>;
          s3 = s2\<lparr>trip_heap := (trip_heap s2)(trip := (trip_heap s2 trip)
                 \<lparr>trip_notes := copy_non_empty_string (trip_notes (trip_heap s2 trip_a))
                                                 (trip_notes (trip_heap s2 trip_b))\<rparr>)\<rparr>
      in (trip, s3))"

text \<open>
  \<open>unregister_trip\<close>: looks the trip up, asserts that it has no dives, and removes it
  from the table it was given when it is there.
\<close>

definition unregister_trip :: "divelist \<Rightarrow> trip_ref \<Rightarrow> trip_ref list \<Rightarrow> error + trip_ref list" where
  "unregister_trip s trip table =
     (let idx = get_idx_in_table table trip in
      if length (dives (trip_heap s trip)) \<noteq> 0 then Inl AssertionFailed
      else if idx \<ge> 0 then Inr (remove_from_table table (nat idx))
      else Inr table)"


text \<open>
  \<open>remove_dive\<close>, \<open>unregister_dive_from_trip\<close>, \<open>delete_trip\<close> and
  \<open>remove_dive_from_trip\<close>. \<open>free_trip\<close> and \<open>free_dive\<close> release memory that
  nothing reads afterwards; the store keeps no record of them.
\<close>

definition remove_dive :: "dive_ref list \<Rightarrow> dive_ref \<Rightarrow> dive_ref list" where
  "remove_dive table dive =
     (let idx = get_idx_in_table table dive in
      if idx \<ge> 0 then remove_from_table table (nat idx) else table)"

definition unregister_dive_from_trip :: "dive_ref \<Rightarrow> divelist \<Rightarrow> trip_ref option \<times> divelist" where
  "unregister_dive_from_trip dive s =
     (case divetrip (dive_heap s dive) of
        None \<Rightarrow> (None, s)
      | Some trip \<Rightarrow>
          (let s1 = s\<lparr>trip_heap := (trip_heap s)(trip := (trip_heap s trip)
                      \<lparr>dives := remove_dive (dives (trip_heap s trip)) dive\<rparr>)\<rparr>;
               s2 = s1\<lparr>dive_heap := (dive_heap s1)(dive := (dive_heap s1 dive)
                      \<lparr>divetrip := None\<rparr>)\<rparr>
           in (Some trip, s2)))"

definition delete_trip :: "divelist \<Rightarrow> trip_ref \<Rightarrow> trip_ref list \<Rightarrow> error + trip_ref list" where
  "delete_trip s trip table = unregister_trip s trip table"

text \<open>The table argument is always the global trip table in this file.\<close>

definition remove_dive_from_trip :: "dive_ref \<Rightarrow> divelist \<Rightarrow> error + divelist" where
  "remove_dive_from_trip dive s =
     (case unregister_dive_from_trip dive s of
        (None, s1) \<Rightarrow> Inr s1
      | (Some trip, s1) \<Rightarrow>
          if length (dives (trip_heap s1 trip)) = 0 then
            (case delete_trip s1 trip (trip_table s1) of
               Inl e \<Rightarrow> Inl e
             | Inr table \<Rightarrow> Inr (s1\<lparr>trip_table := table\<rparr>))
          else Inr s1)"

section \<open>Looking dives up\<close>

text \<open>
  Modelled from the spec: \<open>get_dive\<close> and the \<open>for_each_dive\<close> macro are declared in
  dive.h, which is not among the sources. \<open>get_dive nr\<close> is entry \<open>nr\<close> of the global
  dive table and \<open>NULL\<close> outside \<open>0 .. nr - 1\<close>; \<open>for_each_dive\<close> walks the table
  from index 0 upwards.
\<close>

definition get_dive :: "divelist \<Rightarrow> int \<Rightarrow> dive_ref option" where
  "get_dive s nr =
     (if nr \<ge> int (length (dive_table s)) \<or> nr < 0 then None
      else Some (dive_table s ! nat nr))"

text \<open>\<open>get_divenr\<close> compares ids, not pointers.\<close>

fun get_divenr_from :: "(dive_ref \<Rightarrow> dive) \<Rightarrow> dive_ref list \<Rightarrow> int \<Rightarrow> int \<Rightarrow> int" where
  "get_divenr_from h [] ident i = -1"
| "get_divenr_from h (d # ds) ident i =
     (if dive_id (h d) = ident then i else get_divenr_from h ds ident (i + 1))"

definition get_divenr :: "divelist \<Rightarrow> dive_ref option \<Rightarrow> int" where
  "get_divenr s dive =
     (case dive of
        None \<Rightarrow> -1
      | Some p \<Rightarrow> get_divenr_from (dive_heap s) (dive_table s) (dive_id (dive_heap s p)) 0)"

section \<open>Selection\<close>

definition select_dive :: "dive_ref option \<Rightarrow> divelist \<Rightarrow> divelist" where
  "select_dive dive s =
     (case dive of
        None \<Rightarrow> s
      | Some p \<Rightarrow>
          (let s1 = (if \<not> selected (dive_heap s p)
                     then s\<lparr>dive_heap := (dive_heap s)(p := (dive_heap s p)\<lparr>selected := True\<rparr>),
                            amount_selected := amount_selected s + 1\<rparr>
                     else s)
           in s1\<lparr>current_dive := Some p\<rparr>))"

text \<open>
  The two scans of \<open>deselect_dive\<close>. \<open>pick_before s n\<close> is
  \<open>while (--selected_dive >= 0)\<close> entered with \<open>selected_dive = n\<close>;
  \<open>pick_after s n\<close> is \<open>while (++selected_dive < dive_table.nr)\<close> entered with
  \<open>selected_dive = n\<close>. Each returns the dive at which the C code assigns
  \<open>current_dive\<close> and returns, or \<open>None\<close> when the loop runs out.
\<close>

function pick_before :: "divelist \<Rightarrow> int \<Rightarrow> dive_ref option" where
  "pick_before s selected_dive =
     (if selected_dive - 1 \<ge> 0 then
        (case get_dive s (selected_dive - 1) of
           Some d \<Rightarrow> if selected (dive_heap s d) then Some d
                     else pick_before s (selected_dive - 1)
         | None \<Rightarrow> pick_before s (selected_dive - 1))
      else None)"
  by pat_completeness auto
termination
  by (relation "measure (\<lambda>(s, i). nat i)") auto

function pick_after :: "divelist \<Rightarrow> int \<Rightarrow> dive_ref option" where
  "pick_after s selected_dive =
     (if selected_dive + 1 < int (length (dive_table s)) then
        (case get_dive s (selected_dive + 1) of
           Some d \<Rightarrow> if selected (dive_heap s d) then Some d
                     else pick_after s (selected_dive + 1)
         | None \<Rightarrow> pick_after s (selected_dive + 1))
      else None)"
  by pat_completeness auto
termination
  by (relation "measure (\<lambda>(s, i). nat (int (length (dive_table s)) - i))") auto

definition deselect_dive :: "dive_ref option \<Rightarrow> divelist \<Rightarrow> divelist" where
  "deselect_dive dive s =
     (case dive of
        None \<Rightarrow> s
      | Some p \<Rightarrow>
          if \<not> selected (dive_heap s p) then s
          else
            (let s1 = s\<lparr>dive_heap := (dive_heap s)(p := (dive_heap s p)\<lparr>selected := False\<rparr>)\<rparr>;
                 s2 = (if amount_selected s1 \<noteq> 0
                       then s1\<lparr>amount_selected := amount_selected s1 - 1\<rparr> else s1)
             in if current_dive s2 = Some p \<and> amount_selected s2 > 0 then
                  (let idx = get_divenr s2 (Some p) in
                   case pick_before s2 idx of
                     Some d \<Rightarrow> s2\<lparr>current_dive := Some d\<rparr>
                   | None \<Rightarrow>
                       (case pick_after s2 idx of
                          Some d \<Rightarrow> s2\<lparr>current_dive := Some d\<rparr>
                        | None \<Rightarrow> s2\<lparr>current_dive := None\<rparr>))
                else s2\<lparr>current_dive := None\<rparr>))"

definition filter_dive :: "dive_ref option \<Rightarrow> bool \<Rightarrow> divelist \<Rightarrow> divelist" where
  "filter_dive d shown s =
     (case d of
        None \<Rightarrow> s
      | Some p \<Rightarrow>
          (let s1 = s\<lparr>dive_heap := (dive_heap s)(p := (dive_heap s p)
                      \<lparr>hidden_by_filter := \<not> shown\<rparr>)\<rparr>
           in if \<not> shown \<and> selected (dive_heap s1 p) then deselect_dive (Some p) s1 else s1))"

section \<open>Adding and removing dives\<close>

definition delete_dive_from_table :: "dive_ref list \<Rightarrow> nat \<Rightarrow> dive_ref list" where
  "delete_dive_from_table table idx = remove_from_table table idx"

definition unregister_dive :: "int \<Rightarrow> divelist \<Rightarrow> dive_ref option \<times> divelist" where
  "unregister_dive idx s =
     (case get_dive s idx of
        None \<Rightarrow> (None, s)
      | Some p \<Rightarrow>
          (let s1 = s\<lparr>dive_table := remove_from_table (dive_table s) (nat idx)\<rparr>;
               s2 = (if selected (dive_heap s1 p)
                     then s1\<lparr>amount_selected := amount_selected s1 - 1\<rparr> else s1);
               s3 = s2\<lparr>dive_heap := (dive_heap s2)(p := (dive_heap s2 p)\<lparr>selected := False\<rparr>)\<rparr>
           in (Some p, s3)))"

definition delete_single_dive :: "int \<Rightarrow> divelist \<Rightarrow> error + divelist" where
  "delete_single_dive idx s =
     (case get_dive s idx of
        None \<Rightarrow> Inr s
      | Some p \<Rightarrow>
          (let s1 = (if selected (dive_heap s p) then deselect_dive (Some p) s else s) in
           case remove_dive_from_trip p s1 of
             Inl e \<Rightarrow> Inl e
           | Inr s2 \<Rightarrow>
               Inr (s2\<lparr>dive_table := delete_dive_from_table (dive_table s2) (nat idx)\<rparr>)))"

text \<open>
  \<open>add_single_dive\<close> hands its index to \<open>add_to_dive_table\<close> unchecked. An index
  outside \<open>0 .. nr\<close> makes the C loop write out of bounds or leave an unwritten
  slot in the table; the model reports it as \<open>OutOfBounds\<close>. (The comment above the
  function says that a negative index inserts the dive in \<open>dive_less_than\<close> order;
  the function has no code for that.)
\<close>

definition add_single_dive :: "int \<Rightarrow> dive_ref \<Rightarrow> divelist \<Rightarrow> error + divelist" where
  "add_single_dive idx dive s =
     (if idx < 0 \<or> idx > int (length (dive_table s)) then Inl OutOfBounds
      else
        (let s1 = s\<lparr>dive_table := add_to_table (dive_table s) (nat idx) dive\<rparr>
         in Inr (if selected (dive_heap s1 dive)
                 then s1\<lparr>amount_selected := amount_selected s1 + 1\<rparr> else s1)))"

section \<open>Queries by time\<close>

text \<open>
  \<open>first_later s when i\<close> is the loop
  \<open>for (i = 0; i < nr && dive_table.dives[i]->when <= when; i++)\<close> from \<open>i\<close> on.
\<close>

function first_later :: "divelist \<Rightarrow> int \<Rightarrow> nat \<Rightarrow> nat" where
  "first_later s when_t i =
     (if i < length (dive_table s) \<and> dive_when (dive_heap s (dive_table s ! i)) \<le> when_t
      then first_later s when_t (Suc i) else i)"
  by pat_completeness auto
termination
  by (relation "measure (\<lambda>(s, w, i). length (dive_table s) - i)") auto

definition get_dive_id_closest_to :: "divelist \<Rightarrow> int \<Rightarrow> int" where
  "get_dive_id_closest_to s when_t =
     (let nr = length (dive_table s); dv = (\<lambda>k. dive_heap s (dive_table s ! k)) in
      if nr = 0 then 0
      else if nr = 1 then dive_id (dv 0)
      else
        (let i = first_later s when_t 0 in
         if i = nr then dive_id (dv (i - 1))
         else if i = 0 then dive_id (dv 0)
         else if when_t - dive_when (dv (i - 1)) < dive_when (dv i) - when_t
              then dive_id (dv (i - 1))
              else dive_id (dv i)))"

text \<open>
  \<open>last_earlier s when i\<close> is the loop of \<open>get_surface_interval\<close>,
  \<open>for (i = nr - 1; i >= 0; --i) if (dives[i]->when < when) break;\<close>, from \<open>i\<close>
  on; it returns the final \<open>i\<close>. \<open>dive_endtime\<close> is defined outside this file
  and is a parameter.
\<close>

function last_earlier :: "divelist \<Rightarrow> int \<Rightarrow> int \<Rightarrow> int" where
  "last_earlier s when_t i =
     (if i \<ge> 0 then
        (if dive_when (dive_heap s (dive_table s ! nat i)) < when_t then i
         else last_earlier s when_t (i - 1))
      else i)"
  by pat_completeness auto
termination
  by (relation "measure (\<lambda>(s, w, i). nat (i + 1))") auto

definition get_surface_interval :: "(dive \<Rightarrow> int) \<Rightarrow> divelist \<Rightarrow> int \<Rightarrow> int" where
  "get_surface_interval dive_endtime s when_t =
     (let i = last_earlier s when_t (int (length (dive_table s)) - 1) in
      if i < 0 then -1
      else
        (let prev_end = dive_endtime (dive_heap s (dive_table s ! nat i)) in
         if prev_end > when_t then 0 else when_t - prev_end))"

section \<open>Air use and SAC\<close>

text \<open>
  \<open>is_cylinder_used\<close>, \<open>gas_volume\<close> and \<open>depth_to_atm\<close> are defined outside this
  file and are parameters. The accumulator \<open>airuse\<close> is a C \<open>int\<close> (millilitres);
  the function returns the \<open>double\<close> \<open>airuse / 1000.0\<close>, here the real number. The
  early \<open>return 0.0\<close> is the value 0.
\<close>

fun airuse_loop ::
  "(nat \<Rightarrow> bool) \<Rightarrow> (cylinder \<Rightarrow> int \<Rightarrow> int) \<Rightarrow> cylinder list \<Rightarrow> nat \<Rightarrow> int \<Rightarrow> real" where
  "airuse_loop used gas_volume [] i airuse = real_of_int airuse / 1000"
| "airuse_loop used gas_volume (cyl # cyls) i airuse =
     (let start_p = (if cyl_start cyl \<noteq> 0 then cyl_start cyl else sample_start cyl);
          end_p = (if cyl_end cyl \<noteq> 0 then cyl_end cyl else sample_end cyl)
      in if end_p = 0 \<or> start_p \<le> end_p then
           (if used i then 0 else airuse_loop used gas_volume cyls (Suc i) airuse)
         else airuse_loop used gas_volume cyls (Suc i)
                (airuse + (gas_volume cyl start_p - gas_volume cyl end_p)))"

definition calculate_airuse ::
  "(dive \<Rightarrow> nat \<Rightarrow> bool) \<Rightarrow> (cylinder \<Rightarrow> int \<Rightarrow> int) \<Rightarrow> dive \<Rightarrow> real" where
  "calculate_airuse is_cylinder_used gas_volume d =
     airuse_loop (is_cylinder_used d) gas_volume (cylinders d) 0 0"

text \<open>
  \<open>lrint\<close> of the C library in the default rounding mode: the nearest integer, and of
  two equally near integers the even one (\<open>lrint 70312.5\<close> is 70312, \<open>lrint 70313.5\<close>
  is 70314).
\<close>

definition lrint :: "real \<Rightarrow> int" where
  "lrint x =
     (if x - of_int \<lfloor>x\<rfloor> < 1 / 2 then \<lfloor>x\<rfloor>
      else if x - of_int \<lfloor>x\<rfloor> > 1 / 2 then \<lfloor>x\<rfloor> + 1
      else if even \<lfloor>x\<rfloor> then \<lfloor>x\<rfloor>
      else \<lfloor>x\<rfloor> + 1)"

text \<open>
  \<open>calculate_sac\<close>. The three early returns are exact. The last two lines are
  \<open>double\<close> arithmetic followed by \<open>lrint\<close>; the model computes the quotient over the
  reals, so it leaves out the rounding error of the \<open>double\<close> operations and the
  infinities and NaNs that a zero \<open>pressure\<close> gives in C.
\<close>

definition calculate_sac ::
  "(dive \<Rightarrow> nat \<Rightarrow> bool) \<Rightarrow> (cylinder \<Rightarrow> int \<Rightarrow> int) \<Rightarrow> (int \<Rightarrow> dive \<Rightarrow> real) \<Rightarrow> dive \<Rightarrow> int" where
  "calculate_sac is_cylinder_used gas_volume depth_to_atm d =
     (let airuse = calculate_airuse is_cylinder_used gas_volume d in
      if airuse = 0 then 0
      else if dc_duration d = 0 then 0
      else if dc_meandepth d = 0 then 0
      else
        (let pressure = depth_to_atm (dc_meandepth d) d;
             sac = airuse / pressure * 60 / real_of_int (dc_duration d)
         in lrint (sac * 1000)))"

section \<open>The order on dives\<close>

definition trip_date :: "divelist \<Rightarrow> trip_ref option \<Rightarrow> int" where
  "trip_date s trip =
     (case trip of
        None \<Rightarrow> 0
      | Some t \<Rightarrow> (case dives (trip_heap s t) of [] \<Rightarrow> 0 | d # _ \<Rightarrow> dive_when (dive_heap s d)))"

definition comp_dives :: "divelist \<Rightarrow> dive_ref \<Rightarrow> dive_ref \<Rightarrow> int" where
  "comp_dives s a b =
     (let da = dive_heap s a; db = dive_heap s b in
      if dive_when da < dive_when db then -1
      else if dive_when da > dive_when db then 1
      else
        (case (if divetrip da \<noteq> divetrip db then
                 (if divetrip db = None then Some (-1)
                  else if divetrip da = None then Some 1
                  else if trip_date s (divetrip da) < trip_date s (divetrip db) then Some (-1)
                  else if trip_date s (divetrip da) > trip_date s (divetrip db) then Some 1
                  else None)
               else None) of
           Some r \<Rightarrow> r
         | None \<Rightarrow>
             if dive_id da < dive_id db then -1
             else if dive_id da > dive_id db then 1
             else 0))"

definition dive_less_than :: "divelist \<Rightarrow> dive_ref \<Rightarrow> dive_ref \<Rightarrow> bool" where
  "dive_less_than s a b \<longleftrightarrow> comp_dives s a b < 0"

text \<open>A dive table is sorted when no entry compares greater than a later one.\<close>

definition dive_table_sorted :: "divelist \<Rightarrow> dive_ref list \<Rightarrow> bool" where
  "dive_table_sorted s table = sorted_wrt (\<lambda>a b. comp_dives s a b \<le> 0) table"

section \<open>Sorting, trips of dives, autogrouping\<close>

definition comp_trips :: "divelist \<Rightarrow> trip_ref \<Rightarrow> trip_ref \<Rightarrow> int" where
  "comp_trips s a b =
     (case dives (trip_heap s a) of
        [] \<Rightarrow> (case dives (trip_heap s b) of [] \<Rightarrow> 0 | _ # _ \<Rightarrow> -1)
      | da # _ \<Rightarrow> (case dives (trip_heap s b) of [] \<Rightarrow> 1 | db # _ \<Rightarrow> comp_dives s da db))"

definition trip_less_than :: "divelist \<Rightarrow> trip_ref \<Rightarrow> trip_ref \<Rightarrow> bool" where
  "trip_less_than s a b \<longleftrightarrow> comp_trips s a b < 0"

text \<open>
  \<open>MAKE_SORT\<close> calls \<open>qsort\<close> with the comparison function. \<open>qsort\<close> leaves
  the order of entries that compare equal unspecified; the model is an insertion sort,
  which keeps it.
\<close>

fun insort_by :: "('a \<Rightarrow> 'a \<Rightarrow> int) \<Rightarrow> 'a \<Rightarrow> 'a list \<Rightarrow> 'a list" where
  "insort_by cmp x [] = [x]"
| "insort_by cmp x (y # ys) = (if cmp x y \<le> 0 then x # y # ys else y # insort_by cmp x ys)"

definition qsort_by :: "('a \<Rightarrow> 'a \<Rightarrow> int) \<Rightarrow> 'a list \<Rightarrow> 'a list" where
  "qsort_by cmp xs = foldr (insort_by cmp) xs []"

definition sort_dive_table :: "divelist \<Rightarrow> dive_ref list \<Rightarrow> dive_ref list" where
  "sort_dive_table s table = qsort_by (comp_dives s) table"

definition sort_trip_table :: "divelist \<Rightarrow> trip_ref list \<Rightarrow> trip_ref list" where
  "sort_trip_table s table = qsort_by (comp_trips s) table"

text \<open>
  \<open>add_dive_to_trip\<close> (the warning printed for a dive that already has another trip
  is not modelled) and \<open>insert_trip\<close>.
\<close>

definition add_dive_to_trip :: "dive_ref \<Rightarrow> trip_ref \<Rightarrow> divelist \<Rightarrow> divelist" where
  "add_dive_to_trip dive trip s =
     (if divetrip (dive_heap s dive) = Some trip then s
      else
        (let idx = get_insertion_index (dive_less_than s) (dives (trip_heap s trip)) dive;
             s1 = s\<lparr>trip_heap := (trip_heap s)(trip := (trip_heap s trip)
                    \<lparr>dives := add_to_table (dives (trip_heap s trip)) idx dive\<rparr>)\<rparr>
         in s1\<lparr>dive_heap := (dive_heap s1)(dive := (dive_heap s1 dive)\<lparr>divetrip := Some trip\<rparr>)\<rparr>))"

definition insert_trip :: "divelist \<Rightarrow> trip_ref \<Rightarrow> trip_ref list \<Rightarrow> trip_ref list" where
  "insert_trip s dive_trip table =
     add_to_table table (get_insertion_index (trip_less_than s) table dive_trip) dive_trip"

definition create_trip_from_dive :: "dive_ref \<Rightarrow> divelist \<Rightarrow> trip_ref \<times> divelist" where
  "create_trip_from_dive dive s =
     (let (trip, s1) = alloc_trip s in
      (trip, s1\<lparr>trip_heap := (trip_heap s1)(trip := (trip_heap s1 trip)
                  \<lparr>location := copy_string (dive_location (dive_heap s1 dive))\<rparr>)\<rparr>))"

text \<open>
  \<open>get_dives_to_autogroup\<close>. \<open>TRIP_THRESHOLD\<close> is defined in a header that is
  not among the sources and is the parameter \<open>threshold\<close>. \<open>autogroup_extend\<close> is the
  inner loop over \<open>*to\<close>; it returns the final \<open>*to\<close>. \<open>autogroup_scan\<close> is the outer
  loop from index \<open>i\<close> with the current \<open>lastdive\<close>; its result is \<open>None\<close> for the
  \<open>NULL\<close> return and otherwise the trip with \<open>*from\<close>, \<open>*to\<close> and \<open>*allocated\<close>.
\<close>

function autogroup_extend ::
  "int \<Rightarrow> divelist \<Rightarrow> dive_ref list \<Rightarrow> trip_ref \<Rightarrow> nat \<Rightarrow> dive_ref \<Rightarrow> nat \<times> divelist" where
  "autogroup_extend threshold s table trip to lastdive =
     (if to < length table then
        (let dive = table ! to in
         if divetrip (dive_heap s dive) \<noteq> None \<or> notrip (dive_heap s dive) \<or>
            dive_when (dive_heap s dive) \<ge> dive_when (dive_heap s lastdive) + threshold
         then (to, s)
         else
           (let s1 = (if dive_location (dive_heap s dive) \<noteq> None \<and>
                         location (trip_heap s trip) = None
                      then s\<lparr>trip_heap := (trip_heap s)(trip := (trip_heap s trip)
                             \<lparr>location := copy_string (dive_location (dive_heap s dive))\<rparr>)\<rparr>
                      else s)
            in autogroup_extend threshold s1 table trip (Suc to) dive))
      else (to, s))"
  by pat_completeness auto
termination
  by (relation "measure (\<lambda>(threshold, s, table, trip, to, lastdive). length table - to)") auto

function autogroup_scan ::
  "int \<Rightarrow> divelist \<Rightarrow> dive_ref list \<Rightarrow> nat \<Rightarrow> dive_ref option \<Rightarrow>
     (trip_ref \<times> nat \<times> nat \<times> bool) option \<times> divelist" where
  "autogroup_scan threshold s table i lastdive =
     (if i < length table then
        (let dive = table ! i in
         if divetrip (dive_heap s dive) \<noteq> None
         then autogroup_scan threshold s table (Suc i) (Some dive)
         else if notrip (dive_heap s dive)
         then autogroup_scan threshold s table (Suc i) None
         else
           (let fresh = (case lastdive of
                           None \<Rightarrow> True
                         | Some l \<Rightarrow> dive_when (dive_heap s dive) \<ge>
                                      dive_when (dive_heap s l) + threshold);
                (trip_opt, allocated, s1) =
                  (if fresh then
                     (let (trip, s') = create_trip_from_dive dive s in
                      (Some trip, True,
                       s'\<lparr>trip_heap := (trip_heap s')(trip := (trip_heap s' trip)
                            \<lparr>autogen := True\<rparr>)\<rparr>))
                   else
                     (case lastdive of
                        None \<Rightarrow> (None, False, s)
                      | Some l \<Rightarrow> (divetrip (dive_heap s l), False, s)))
            in case trip_opt of
                 None \<Rightarrow> (None, s1)
               | Some trip \<Rightarrow>
                   (let (to, s2) = autogroup_extend threshold s1 table trip (Suc i) dive
                    in (Some (trip, i, to, allocated), s2))))
      else (None, s))"
  by pat_completeness auto
termination
  by (relation "measure (\<lambda>(threshold, s, table, i, lastdive). length table - i)") auto

definition get_dives_to_autogroup ::
  "int \<Rightarrow> divelist \<Rightarrow> dive_ref list \<Rightarrow> nat \<Rightarrow>
     (trip_ref \<times> nat \<times> nat \<times> bool) option \<times> divelist" where
  "get_dives_to_autogroup threshold s table start = autogroup_scan threshold s table start None"

declare autogroup_extend.simps [simp del] autogroup_scan.simps [simp del]

lemma autogroup_extend_range:
  "to \<le> length table \<Longrightarrow>
     to \<le> fst (autogroup_extend threshold s table trip to lastdive) \<and>
     fst (autogroup_extend threshold s table trip to lastdive) \<le> length table"
proof (induction threshold s table trip to lastdive rule: autogroup_extend.induct)
  case (1 threshold s table trip to lastdive)
  let ?dive = "table ! to"
  let ?stop = "divetrip (dive_heap s ?dive) \<noteq> None \<or> notrip (dive_heap s ?dive) \<or>
            dive_when (dive_heap s ?dive) \<ge> dive_when (dive_heap s lastdive) + threshold"
  let ?s1 = "if dive_location (dive_heap s ?dive) \<noteq> None \<and> location (trip_heap s trip) = None
             then s\<lparr>trip_heap := (trip_heap s)(trip := (trip_heap s trip)
                    \<lparr>location := copy_string (dive_location (dive_heap s ?dive))\<rparr>)\<rparr>
             else s"
  show ?case
  proof (cases "to < length table")
    case False
    then have "autogroup_extend threshold s table trip to lastdive = (to, s)"
      by (subst autogroup_extend.simps) simp
    with "1.prems" show ?thesis by simp
  next
    case True
    show ?thesis
    proof (cases ?stop)
      case stop: True
      with True have "autogroup_extend threshold s table trip to lastdive = (to, s)"
        by (subst autogroup_extend.simps) (simp add: Let_def)
      with "1.prems" show ?thesis by simp
    next
      case go: False
      with True have step: "autogroup_extend threshold s table trip to lastdive =
          autogroup_extend threshold ?s1 table trip (Suc to) ?dive"
        by (subst autogroup_extend.simps) (simp add: Let_def)
      from True have "Suc to \<le> length table" by simp
      from "1.IH" [OF True refl go refl this] show ?thesis
        unfolding step by simp
    qed
  qed
qed

lemma autogroup_scan_range:
  "autogroup_scan threshold s table i lastdive = (Some (trip, from, to, allocated), s') \<Longrightarrow>
     i \<le> from \<and> from < to \<and> to \<le> length table"
proof (induction threshold s table i lastdive arbitrary: trip "from" to allocated s'
    rule: autogroup_scan.induct)
  case (1 threshold s table i lastdive)
  from "1.prems" have i: "i < length table"
    by (subst (asm) autogroup_scan.simps) (auto split: if_splits)
  let ?dive = "table ! i"
  show ?case
  proof (cases "divetrip (dive_heap s ?dive) \<noteq> None")
    case True
    with i "1.prems" have "autogroup_scan threshold s table (Suc i) (Some ?dive) =
        (Some (trip, from, to, allocated), s')"
      by (subst (asm) autogroup_scan.simps) (simp add: Let_def)
    from "1.IH"(1) [OF i refl True this] show ?thesis by simp
  next
    case no_trip: False
    show ?thesis
    proof (cases "notrip (dive_heap s ?dive)")
      case True
      with i no_trip "1.prems" have "autogroup_scan threshold s table (Suc i) None =
          (Some (trip, from, to, allocated), s')"
        by (subst (asm) autogroup_scan.simps) (simp add: Let_def)
      from "1.IH"(2) [OF i refl no_trip True this] show ?thesis by simp
    next
      case False
      from i have "Suc i \<le> length table" by simp
      note r = autogroup_extend_range [OF this]
      from "1.prems" i no_trip False have
        "from = i \<and> (\<exists>t s1 s2. autogroup_extend threshold s1 table t (Suc i) ?dive = (to, s2))"
        by (subst (asm) autogroup_scan.simps)
           (simp add: Let_def split: if_splits option.splits prod.splits, blast+)
      then obtain t s1 s2 where "from = i"
        and "autogroup_extend threshold s1 table t (Suc i) ?dive = (to, s2)" by blast
      with r [of threshold s1 t ?dive] show ?thesis by (simp add: Suc_le_eq)
    qed
  qed
qed

text \<open>
  \<open>autogroup_dives\<close>: \<open>add_dives_to_trip\<close> is its inner \<open>for (j = from; j < to; ++j)\<close>
  and \<open>autogroup_loop\<close> the outer loop from index \<open>i\<close>, which hands back the trip table
  it has been inserting into.
\<close>

fun add_dives_to_trip :: "dive_ref list \<Rightarrow> trip_ref \<Rightarrow> divelist \<Rightarrow> divelist" where
  "add_dives_to_trip [] trip s = s"
| "add_dives_to_trip (d # ds) trip s = add_dives_to_trip ds trip (add_dive_to_trip d trip s)"

function autogroup_loop ::
  "int \<Rightarrow> dive_ref list \<Rightarrow> nat \<Rightarrow> trip_ref list \<Rightarrow> divelist \<Rightarrow> trip_ref list \<times> divelist" where
  "autogroup_loop threshold table i trips s =
     (case get_dives_to_autogroup threshold s table i of
        (None, s1) \<Rightarrow> (trips, s1)
      | (Some (trip, from, to, alloc), s1) \<Rightarrow>
          (let s2 = add_dives_to_trip (take (to - from) (drop from table)) trip s1;
               trips2 = (if alloc then insert_trip s2 trip trips else trips)
           in autogroup_loop threshold table to trips2 s2))"
  by pat_completeness auto
termination
proof (relation "measure (\<lambda>(threshold, table, i, trips, s). length table - i)")
  show "wf (measure (\<lambda>(threshold, table, i, trips, s). length table - i))" by simp
next
  fix threshold :: int and table :: "dive_ref list" and i :: nat and trips :: "trip_ref list"
    and s x1 s1 x2 trip y "from" z to alloc s2 trips2
  assume "(x1, s1) = get_dives_to_autogroup threshold s table i" and "x1 = Some x2"
    and "(trip, y) = x2" and "(from, z) = y" and "(to, alloc) = z"
  then have "autogroup_scan threshold s table i None = (Some (trip, from, to, alloc), s1)"
    by (simp add: get_dives_to_autogroup_def)
  from autogroup_scan_range [OF this]
  have "length table - to < length table - i" by arith
  then show "((threshold, table, to, trips2, s2), (threshold, table, i, trips, s))
          \<in> measure (\<lambda>(threshold, table, i, trips, s). length table - i)"
    by simp
qed

declare autogroup_loop.simps [simp del]

definition autogroup_dives ::
  "int \<Rightarrow> dive_ref list \<Rightarrow> trip_ref list \<Rightarrow> divelist \<Rightarrow> trip_ref list \<times> divelist" where
  "autogroup_dives threshold table trips s =
     (if \<not> autogroup s then (trips, s)
      else
        (let (trips1, s1) = autogroup_loop threshold table 0 trips s
         in (sort_trip_table s1 trips1, s1)))"

text \<open>\<open>process_loaded_dives\<close>; \<open>set_dc_nickname\<close> touches no state of this file.\<close>

definition process_loaded_dives :: "int \<Rightarrow> divelist \<Rightarrow> divelist" where
  "process_loaded_dives threshold s =
     (let s1 = s\<lparr>dive_table := sort_dive_table s (dive_table s)\<rparr>;
          s2 = s1\<lparr>trip_table := sort_trip_table s1 (trip_table s1)\<rparr>;
          (trips, s3) = autogroup_dives threshold (dive_table s2) (trip_table s2) s2
      in s3\<lparr>trip_table := trips\<rparr>)"

section \<open>Importing dives\<close>

text \<open>
  \<open>try_to_merge\<close> (which allocates the merged dive or returns \<open>NULL\<close>) and
  \<open>dive_endtime\<close> are defined outside this file: the parameters \<open>tm\<close>, which gives the
  contents of the merged dive, and \<open>et\<close>. The \<open>IMPORT_...\<close> bits of \<open>flags\<close> are a
  record of booleans. \<open>set_dc_nickname\<close> touches no state of this file.
\<close>

record import_flags =
  prefer_imported :: bool
  merge_all_trips :: bool
  is_downloaded :: bool
  add_to_new_trip :: bool

text \<open>
  The tables and locals of \<open>process_imported_dives\<close>: the store, the two import
  tables, the three output tables, \<open>sequence_changed\<close> and \<open>start_renumbering_at\<close>.
\<close>

record import_plan =
  plan_state :: divelist
  import_table :: "dive_ref list"
  import_trip_table :: "trip_ref list"
  dives_to_add :: "dive_ref list"
  dives_to_remove :: "dive_ref list"
  trips_to_add :: "trip_ref list"
  sequence_changed :: bool
  start_renumbering_at :: nat

definition alloc_dive :: "dive \<Rightarrow> divelist \<Rightarrow> dive_ref \<times> divelist" where
  "alloc_dive d s =
     (next_dive s, s\<lparr>dive_heap := (dive_heap s)(next_dive s := d), next_dive := Suc (next_dive s)\<rparr>)"

text \<open>
  \<open>merge_imported_dives\<close>: the loop from index \<open>i\<close>. After a merge the merged dive
  replaces entry \<open>i - 1\<close>, entry \<open>i\<close> is removed and the same \<open>i\<close> is looked at again.
\<close>

function merge_imported_loop ::
  "(dive \<Rightarrow> dive \<Rightarrow> bool \<Rightarrow> dive option) \<Rightarrow> (dive \<Rightarrow> int) \<Rightarrow> dive_ref list \<Rightarrow> nat \<Rightarrow> divelist
     \<Rightarrow> dive_ref list \<times> divelist" where
  "merge_imported_loop tm et table i s =
     (if 0 < i \<and> i < length table then
        (let prev = table ! (i - 1); dive = table ! i in
         if duration (dive_heap s prev) \<noteq> 0 \<and> duration (dive_heap s dive) \<noteq> 0 \<and>
            et (dive_heap s prev) < dive_when (dive_heap s dive)
         then merge_imported_loop tm et table (Suc i) s
         else
           (case tm (dive_heap s prev) (dive_heap s dive) False of
              None \<Rightarrow> merge_imported_loop tm et table (Suc i) s
            | Some m \<Rightarrow>
                (let (merged, s1) = alloc_dive m s;
                     table1 = delete_dive_from_table (table[i - 1 := merged]) i
                 in merge_imported_loop tm et table1 i s1)))
      else (table, s))"
  by pat_completeness auto
termination
  by (relation "measure (\<lambda>(tm, et, table, i, s). length table - i)")
     (auto simp: delete_dive_from_table_def remove_from_table_def)

definition merge_imported_dives ::
  "(dive \<Rightarrow> dive \<Rightarrow> bool \<Rightarrow> dive option) \<Rightarrow> (dive \<Rightarrow> int) \<Rightarrow> dive_ref list \<Rightarrow> divelist
     \<Rightarrow> dive_ref list \<times> divelist" where
  "merge_imported_dives tm et table s = merge_imported_loop tm et table 1 s"

definition insert_dive :: "divelist \<Rightarrow> dive_ref list \<Rightarrow> dive_ref \<Rightarrow> dive_ref list" where
  "insert_dive s table d = add_to_table table (get_insertion_index (dive_less_than s) table d) d"

text \<open>
  \<open>try_to_merge_into\<close>: \<open>None\<close> is the return value \<open>false\<close>; on success the new
  \<open>dives_to_add\<close> and \<open>dives_to_remove\<close> and the store with the merged dive.
\<close>

definition try_to_merge_into ::
  "(dive \<Rightarrow> dive \<Rightarrow> bool \<Rightarrow> dive option) \<Rightarrow> dive_ref \<Rightarrow> nat \<Rightarrow> dive_ref list \<Rightarrow> bool \<Rightarrow>
     dive_ref list \<Rightarrow> dive_ref list \<Rightarrow> divelist \<Rightarrow> (dive_ref list \<times> dive_ref list \<times> divelist) option" where
  "try_to_merge_into tm dive_to_add idx table prefer to_add to_remove s =
     (let old_dive = table ! idx in
      case tm (dive_heap s old_dive) (dive_heap s dive_to_add) prefer of
        None \<Rightarrow> None
      | Some m \<Rightarrow>
          (let (merged, s1) = alloc_dive m s;
               s2 = s1\<lparr>dive_heap := (dive_heap s1)(merged := (dive_heap s1 merged)
                      \<lparr>divetrip := divetrip (dive_heap s1 old_dive)\<rparr>)\<rparr>;
               to_remove1 = insert_dive s2 to_remove old_dive;
               to_add1 = insert_dive s2 to_add merged
           in Some (to_add1, to_remove1, s2)))"

definition trip_enddate :: "(dive \<Rightarrow> int) \<Rightarrow> divelist \<Rightarrow> trip_ref \<Rightarrow> int" where
  "trip_enddate et s trip =
     (let ds = dives (trip_heap s trip) in
      if length ds = 0 then 0 else et (dive_heap s (ds ! (length ds - 1))))"

definition trips_overlap :: "(dive \<Rightarrow> int) \<Rightarrow> divelist \<Rightarrow> trip_ref \<Rightarrow> trip_ref \<Rightarrow> bool" where
  "trips_overlap et s t1 t2 =
     (if length (dives (trip_heap s t1)) = 0 \<or> length (dives (trip_heap s t2)) = 0 then False
      else if trip_date s (Some t1) < trip_date s (Some t2)
      then trip_enddate et s t1 \<ge> trip_date s (Some t2)
      else trip_enddate et s t2 \<ge> trip_date s (Some t1))"

definition dive_is_after_last :: "divelist \<Rightarrow> dive_ref \<Rightarrow> bool" where
  "dive_is_after_last s d =
     (if length (dive_table s) = 0 then True
      else dive_less_than s (dive_table s ! (length (dive_table s) - 1)) d)"

text \<open>
  \<open>merge_dive_tables\<close>. \<open>merge_state\<close> holds what the loop over \<open>dives_from\<close>
  carries: \<open>j\<close>, \<open>last_merged_into\<close>, \<open>sequence_changed\<close>, the table \<open>delete_from\<close>
  (when not \<open>NULL\<close>), the two output tables, \<open>*num_merged\<close> and the store.
  \<open>advance_j\<close> is the \<open>while\<close> that finds the insertion point, \<open>merge_step\<close> one
  iteration of the \<open>for\<close>.
\<close>

record merge_state =
  ms_j :: nat
  ms_last_merged_into :: int
  ms_sequence_changed :: bool
  ms_delete_from :: "dive_ref list option"
  ms_to_add :: "dive_ref list"
  ms_to_remove :: "dive_ref list"
  ms_num_merged :: nat
  ms_store :: divelist

function advance_j :: "divelist \<Rightarrow> dive_ref list \<Rightarrow> dive_ref \<Rightarrow> nat \<Rightarrow> nat" where
  "advance_j s dives_to dive_to_add j =
     (if j < length dives_to \<and> dive_less_than s (dives_to ! j) dive_to_add
      then advance_j s dives_to dive_to_add (Suc j) else j)"
  by pat_completeness auto
termination
  by (relation "measure (\<lambda>(s, dives_to, dive_to_add, j). length dives_to - j)") auto

definition merge_step ::
  "(dive \<Rightarrow> dive \<Rightarrow> bool \<Rightarrow> dive option) \<Rightarrow> (dive \<Rightarrow> int) \<Rightarrow> dive_ref list \<Rightarrow> bool \<Rightarrow>
     trip_ref option \<Rightarrow> dive_ref \<Rightarrow> merge_state \<Rightarrow> merge_state" where
  "merge_step tm et dives_to prefer trip dive_to_add ms =
     (let s = ms_store ms;
          j = advance_j s dives_to dive_to_add (ms_j ms);
          ms1 = ms\<lparr>ms_delete_from := map_option (\<lambda>t. remove_dive t dive_to_add) (ms_delete_from ms),
                   ms_j := j\<rparr>;
          into_prev =
            (if j > 0 \<and> int j - 1 > ms_last_merged_into ms \<and>
                et (dive_heap s (dives_to ! (j - 1))) > dive_when (dive_heap s dive_to_add)
             then try_to_merge_into tm dive_to_add (j - 1) dives_to prefer
                    (ms_to_add ms) (ms_to_remove ms) s
             else None)
      in case into_prev of
           Some (to_add, to_remove, s1) \<Rightarrow>
             ms1\<lparr>ms_to_add := to_add, ms_to_remove := to_remove, ms_store := s1,
                 ms_last_merged_into := int j - 1, ms_num_merged := Suc (ms_num_merged ms)\<rparr>
         | None \<Rightarrow>
             (let into_next =
                    (if j < length dives_to \<and> int j > ms_last_merged_into ms \<and>
                        et (dive_heap s dive_to_add) > dive_when (dive_heap s (dives_to ! j))
                     then try_to_merge_into tm dive_to_add j dives_to prefer
                            (ms_to_add ms) (ms_to_remove ms) s
                     else None)
              in case into_next of
                   Some (to_add, to_remove, s1) \<Rightarrow>
                     ms1\<lparr>ms_to_add := to_add, ms_to_remove := to_remove, ms_store := s1,
                         ms_last_merged_into := int j, ms_num_merged := Suc (ms_num_merged ms)\<rparr>
                 | None \<Rightarrow>
                     ms1\<lparr>ms_to_add := insert_dive s (ms_to_add ms) dive_to_add,
                         ms_sequence_changed :=
                           (ms_sequence_changed ms \<or> \<not> dive_is_after_last s dive_to_add),
                         ms_store := s\<lparr>dive_heap := (dive_heap s)(dive_to_add :=
                           (dive_heap s dive_to_add)\<lparr>divetrip := trip\<rparr>)\<rparr>\<rparr>))"

fun merge_dive_loop ::
  "(dive \<Rightarrow> dive \<Rightarrow> bool \<Rightarrow> dive option) \<Rightarrow> (dive \<Rightarrow> int) \<Rightarrow> dive_ref list \<Rightarrow> bool \<Rightarrow>
     trip_ref option \<Rightarrow> dive_ref list \<Rightarrow> merge_state \<Rightarrow> merge_state" where
  "merge_dive_loop tm et dives_to prefer trip [] ms = ms"
| "merge_dive_loop tm et dives_to prefer trip (d # ds) ms =
     merge_dive_loop tm et dives_to prefer trip ds (merge_step tm et dives_to prefer trip d ms)"

text \<open>
  The result of \<open>merge_dive_tables\<close> is the final loop state; its caller stores
  \<open>dives_from->nr = 0\<close> and reads \<open>sequence_changed\<close> from it.
\<close>

definition merge_dive_tables ::
  "(dive \<Rightarrow> dive \<Rightarrow> bool \<Rightarrow> dive option) \<Rightarrow> (dive \<Rightarrow> int) \<Rightarrow> dive_ref list \<Rightarrow>
     dive_ref list option \<Rightarrow> dive_ref list \<Rightarrow> bool \<Rightarrow> trip_ref option \<Rightarrow>
     dive_ref list \<Rightarrow> dive_ref list \<Rightarrow> nat \<Rightarrow> divelist \<Rightarrow> merge_state" where
  "merge_dive_tables tm et dives_from delete_from dives_to prefer trip to_add to_remove
     num_merged s =
     merge_dive_loop tm et dives_to prefer trip dives_from
       \<lparr>ms_j = 0, ms_last_merged_into = -1, ms_sequence_changed = False,
        ms_delete_from = delete_from, ms_to_add = to_add, ms_to_remove = to_remove,
        ms_num_merged = num_merged, ms_store = s\<rparr>"

text \<open>
  \<open>try_to_merge_trip\<close>: \<open>find_overlapping\<close> is its loop over the global trip table;
  \<open>None\<close> is the return value \<open>false\<close>.
\<close>

fun find_overlapping ::
  "(dive \<Rightarrow> int) \<Rightarrow> divelist \<Rightarrow> trip_ref \<Rightarrow> trip_ref list \<Rightarrow> trip_ref option" where
  "find_overlapping et s trip_import [] = None"
| "find_overlapping et s trip_import (trip_old # rest) =
     (if trips_overlap et s trip_import trip_old then Some trip_old
      else find_overlapping et s trip_import rest)"

definition try_to_merge_trip ::
  "(dive \<Rightarrow> dive \<Rightarrow> bool \<Rightarrow> dive option) \<Rightarrow> (dive \<Rightarrow> int) \<Rightarrow> trip_ref \<Rightarrow> bool \<Rightarrow>
     import_plan \<Rightarrow> import_plan option" where
  "try_to_merge_trip tm et trip_import prefer pl =
     (let s = plan_state pl in
      case find_overlapping et s trip_import (trip_table s) of
        None \<Rightarrow> None
      | Some trip_old \<Rightarrow>
          (let ms = merge_dive_tables tm et (dives (trip_heap s trip_import))
                      (Some (import_table pl)) (dives (trip_heap s trip_old)) prefer
                      (Some trip_old) (dives_to_add pl) (dives_to_remove pl)
                      (start_renumbering_at pl) s;
               s1 = ms_store ms;
               s2 = s1\<lparr>trip_heap := (trip_heap s1)(trip_import := (trip_heap s1 trip_import)
                      \<lparr>dives := []\<rparr>)\<rparr>
           in Some (pl\<lparr>plan_state := s2,
                       import_table := (case ms_delete_from ms of
                                          None \<Rightarrow> import_table pl | Some t \<Rightarrow> t),
                       dives_to_add := ms_to_add ms, dives_to_remove := ms_to_remove ms,
                       sequence_changed := (sequence_changed pl \<or> ms_sequence_changed ms),
                       start_renumbering_at := ms_num_merged ms\<rparr>)))"

text \<open>
  The loop of \<open>process_imported_dives\<close> over the import trips. \<open>add_trip_dives\<close> is
  the inner loop that moves a trip's dives to \<open>dives_to_add\<close>. Both loops count with
  the same variable \<open>i\<close>: when the inner loop has run over a trip with \<open>k\<close> dives, the
  outer loop goes on at index \<open>k + 1\<close>. It need not terminate, so \<open>None\<close> stands for
  a run that never leaves the loop.
\<close>

fun add_trip_dives :: "dive_ref list \<Rightarrow> import_plan \<Rightarrow> import_plan" where
  "add_trip_dives [] pl = pl"
| "add_trip_dives (d # ds) pl =
     add_trip_dives ds
       (pl\<lparr>dives_to_add := insert_dive (plan_state pl) (dives_to_add pl) d,
           sequence_changed := (sequence_changed pl \<or> \<not> dive_is_after_last (plan_state pl) d),
           import_table := remove_dive (import_table pl) d\<rparr>)"

partial_function (option) import_trips_loop ::
  "(dive \<Rightarrow> dive \<Rightarrow> bool \<Rightarrow> dive option) \<Rightarrow> (dive \<Rightarrow> int) \<Rightarrow> import_flags \<Rightarrow> nat \<Rightarrow>
     import_plan \<Rightarrow> import_plan option" where
  "import_trips_loop tm et flags i pl =
     (if i < length (import_trip_table pl) then
        (let trip_import = import_trip_table pl ! i in
         case (if merge_all_trips flags \<or> autogen (trip_heap (plan_state pl) trip_import)
               then try_to_merge_trip tm et trip_import (prefer_imported flags) pl
               else None) of
           Some pl1 \<Rightarrow> import_trips_loop tm et flags (Suc i) pl1
         | None \<Rightarrow>
             (let ds = dives (trip_heap (plan_state pl) trip_import);
                  pl1 = add_trip_dives ds pl;
                  s1 = plan_state pl1;
                  pl2 = pl1\<lparr>trips_to_add := insert_trip s1 trip_import (trips_to_add pl1)\<rparr>;
                  pl3 = pl2\<lparr>plan_state := s1\<lparr>trip_heap := (trip_heap s1)(trip_import :=
                              (trip_heap s1 trip_import)\<lparr>dives := []\<rparr>)\<rparr>\<rparr>
              in import_trips_loop tm et flags (Suc (length ds)) pl3))
      else Some pl)"

declare import_trips_loop.simps [code]

text \<open>
  The rest of the planning: the dives left in the import table go to one new trip
  (\<open>add_to_new_trip_dives\<close> is that loop) or are merged into the global dive table.
\<close>

fun add_to_new_trip_dives :: "trip_ref \<Rightarrow> dive_ref list \<Rightarrow> import_plan \<Rightarrow> import_plan" where
  "add_to_new_trip_dives new_trip [] pl = pl"
| "add_to_new_trip_dives new_trip (d # ds) pl =
     (let s = plan_state pl;
          s1 = s\<lparr>dive_heap := (dive_heap s)(d := (dive_heap s d)\<lparr>divetrip := Some new_trip\<rparr>)\<rparr>
      in add_to_new_trip_dives new_trip ds
           (pl\<lparr>plan_state := s1,
               dives_to_add := insert_dive s1 (dives_to_add pl) d,
               sequence_changed := (sequence_changed pl \<or> \<not> dive_is_after_last s1 d)\<rparr>))"

definition import_remaining_dives ::
  "(dive \<Rightarrow> dive \<Rightarrow> bool \<Rightarrow> dive option) \<Rightarrow> (dive \<Rightarrow> int) \<Rightarrow> import_flags \<Rightarrow> import_plan
     \<Rightarrow> import_plan" where
  "import_remaining_dives tm et flags pl =
     (if add_to_new_trip flags \<and> length (import_table pl) > 0 then
        (let (new_trip, s1) = create_trip_from_dive (import_table pl ! 0) (plan_state pl);
             pl1 = pl\<lparr>plan_state := s1,
                      trips_to_add := insert_trip s1 new_trip (trips_to_add pl)\<rparr>;
             pl2 = add_to_new_trip_dives new_trip (import_table pl1) pl1
         in pl2\<lparr>import_table := []\<rparr>)
      else if length (import_table pl) > 0 then
        (let s = plan_state pl;
             ms = merge_dive_tables tm et (import_table pl) None (dive_table s)
                    (prefer_imported flags) None (dives_to_add pl) (dives_to_remove pl)
                    (start_renumbering_at pl) s
         in pl\<lparr>plan_state := ms_store ms, import_table := [],
                dives_to_add := ms_to_add ms, dives_to_remove := ms_to_remove ms,
                sequence_changed := (sequence_changed pl \<or> ms_sequence_changed ms),
                start_renumbering_at := ms_num_merged ms\<rparr>)
      else pl)"

text \<open>
  The renumbering at the end of \<open>process_imported_dives\<close>: \<open>renumber_from\<close> is the
  loop \<open>dives_to_add->dives[i]->number = ++nr\<close> over the entries from
  \<open>start_renumbering_at\<close> on.
\<close>

fun renumber_from :: "dive_ref list \<Rightarrow> int \<Rightarrow> divelist \<Rightarrow> divelist" where
  "renumber_from [] nr s = s"
| "renumber_from (d # ds) nr s =
     renumber_from ds (nr + 1)
       (s\<lparr>dive_heap := (dive_heap s)(d := (dive_heap s d)\<lparr>number := nr + 1\<rparr>)\<rparr>)"

definition renumber_added :: "bool \<Rightarrow> nat \<Rightarrow> import_plan \<Rightarrow> import_plan" where
  "renumber_added new_dive_has_number preexisting pl =
     (let s = plan_state pl;
          nr = (if length (dive_table s) > 0
                then number (dive_heap s (dive_table s ! (length (dive_table s) - 1))) else 0)
      in if \<not> sequence_changed pl \<and> nr \<ge> int preexisting \<and> \<not> new_dive_has_number
         then pl\<lparr>plan_state :=
                  renumber_from (drop (start_renumbering_at pl) (dives_to_add pl)) nr s\<rparr>
         else pl)"

text \<open>
  \<open>process_imported_dives\<close>. A \<open>NULL\<close> \<open>import_trip_table\<close> is the empty table; the
  output tables start out empty. \<open>plan_imported_dives\<close> is the function up to the
  renumbering; it also hands on \<open>preexisting\<close>.
\<close>

definition plan_imported_dives ::
  "(dive \<Rightarrow> dive \<Rightarrow> bool \<Rightarrow> dive option) \<Rightarrow> (dive \<Rightarrow> int) \<Rightarrow> int \<Rightarrow> import_flags \<Rightarrow>
     dive_ref list \<Rightarrow> trip_ref list \<Rightarrow> divelist \<Rightarrow> (import_plan \<times> nat) option" where
  "plan_imported_dives tm et threshold flags imports import_trips s =
     (let sorted_imports = sort_dive_table s imports;
          (merged_imports, s1) = merge_imported_dives tm et sorted_imports s;
          (trips1, s2) = (if \<not> add_to_new_trip flags
                          then autogroup_dives threshold merged_imports import_trips s1
                          else (import_trips, s1));
          preexisting = length (dive_table s2);
          pl = \<lparr>plan_state = s2, import_table = merged_imports, import_trip_table = trips1,
                dives_to_add = [], dives_to_remove = [], trips_to_add = [],
                sequence_changed = False, start_renumbering_at = 0\<rparr>
      in case import_trips_loop tm et flags 0 pl of
           None \<Rightarrow> None
         | Some pl1 \<Rightarrow>
             Some (import_remaining_dives tm et flags (pl1\<lparr>import_trip_table := []\<rparr>),
                   preexisting))"

definition new_dive_has_number :: "divelist \<Rightarrow> dive_ref list \<Rightarrow> bool" where
  "new_dive_has_number s imports \<longleftrightarrow> (\<exists>d \<in> set imports. number (dive_heap s d) > 0)"

definition process_imported_dives ::
  "(dive \<Rightarrow> dive \<Rightarrow> bool \<Rightarrow> dive option) \<Rightarrow> (dive \<Rightarrow> int) \<Rightarrow> int \<Rightarrow> import_flags \<Rightarrow>
     dive_ref list \<Rightarrow> trip_ref list \<Rightarrow> divelist \<Rightarrow> import_plan option" where
  "process_imported_dives tm et threshold flags imports import_trips s =
     (if length imports = 0 then
        Some \<lparr>plan_state = s, import_table = imports, import_trip_table = import_trips,
              dives_to_add = [], dives_to_remove = [], trips_to_add = [],
              sequence_changed = False, start_renumbering_at = 0\<rparr>
      else
        (case plan_imported_dives tm et threshold flags imports import_trips s of
           None \<Rightarrow> None
         | Some (pl, preexisting) \<Rightarrow>
             Some (renumber_added (new_dive_has_number s imports) preexisting pl)))"

text \<open>
  \<open>get_dive_nr_at_idx\<close>: the number a dive gets when it is inserted at index \<open>idx\<close>
  of the global dive table. \<open>get_dive (dive_table.nr - 1)\<close> is the last entry of the
  table, which is not empty at that point.
\<close>

definition get_dive_nr_at_idx :: "divelist \<Rightarrow> int \<Rightarrow> int" where
  "get_dive_nr_at_idx s idx =
     (if length (dive_table s) = 0 then 1
      else if idx \<ge> int (length (dive_table s)) then
        (let last_dive = dive_heap s (dive_table s ! (length (dive_table s) - 1))
         in if number last_dive \<noteq> 0 then number last_dive + 1 else 0)
      else 0)"

section \<open>Reference notions and example states\<close>

text \<open>
  What the claims call the first non-empty of two strings, and its mirror image, which
  is what \<open>copy_non_empty_string\<close> computes.
\<close>

definition first_non_empty :: "string option \<Rightarrow> string option \<Rightarrow> string option" where
  "first_non_empty a b = (if \<not> empty_string a then a else if \<not> empty_string b then b else None)"

definition last_non_empty :: "string option \<Rightarrow> string option \<Rightarrow> string option" where
  "last_non_empty a b = (if \<not> empty_string b then b else if \<not> empty_string a then a else None)"

definition zero_dive :: dive where
  "zero_dive = \<lparr>dive_id = 0, dive_when = 0, number = 0, selected = False,
     hidden_by_filter = False, notrip = False, divetrip = None, duration = 0,
     dive_location = None, cylinders = [], dc_duration = 0, dc_meandepth = 0\<rparr>"

definition empty_divelist :: divelist where
  "empty_divelist = \<lparr>dive_heap = (\<lambda>_. zero_dive), trip_heap = (\<lambda>_. zero_trip),
     dive_table = [], trip_table = [], amount_selected = 0, current_dive = None,
     autogroup = False, next_trip = 0, next_dive = 0\<rparr>"

text \<open>Two registered trips: trip 0 has no dives, trip 1 holds dive 7.\<close>

definition two_trips :: divelist where
  "two_trips = empty_divelist
     \<lparr>trip_heap := (\<lambda>_. zero_trip)
        (0 := zero_trip\<lparr>location := Some ''Red Sea'', trip_notes := None\<rparr>,
         1 := zero_trip\<lparr>location := Some ''Bonaire'', trip_notes := Some ''wall dives'',
                         dives := [7]\<rparr>),
      trip_table := [0, 1], next_trip := 2\<rparr>"

text \<open>
  The table position of the dive whose id \<open>get_dive_id_closest_to\<close> returns (for a
  table that is not empty).
\<close>

definition closest_index :: "divelist \<Rightarrow> int \<Rightarrow> nat" where
  "closest_index s when_t =
     (let nr = length (dive_table s); dv = (\<lambda>k. dive_heap s (dive_table s ! k)) in
      if nr = 1 then 0
      else
        (let i = first_later s when_t 0 in
         if i = nr then i - 1
         else if i = 0 then 0
         else if when_t - dive_when (dv (i - 1)) < dive_when (dv i) - when_t then i - 1 else i))"

text \<open>The start times and the ids of the global dive table, in table order.\<close>

definition table_whens :: "divelist \<Rightarrow> int list" where
  "table_whens s = map (\<lambda>d. dive_when (dive_heap s d)) (dive_table s)"

definition table_ids :: "divelist \<Rightarrow> int list" where
  "table_ids s = map (\<lambda>d. dive_id (dive_heap s d)) (dive_table s)"

text \<open>
  Entry \<open>i\<close> is the latest dive that starts strictly before \<open>w\<close>: no dive starting
  before \<open>w\<close> starts later, and among dives with the same start it is the last in
  table order.
\<close>

definition latest_before :: "divelist \<Rightarrow> int \<Rightarrow> nat \<Rightarrow> bool" where
  "latest_before s w i \<longleftrightarrow>
     i < length (dive_table s) \<and> table_whens s ! i < w \<and>
     (\<forall>k < length (dive_table s). table_whens s ! k < w \<longrightarrow>
        table_whens s ! k \<le> table_whens s ! i \<and> (table_whens s ! k = table_whens s ! i \<longrightarrow> k \<le> i))"

text \<open>
  Three registered dives with ids 1, 2, 3 starting at 1000, 2000, 3000, all selected,
  the second one current.
\<close>

definition three_dives :: divelist where
  "three_dives = empty_divelist
     \<lparr>dive_heap := (\<lambda>_. zero_dive)
        (1 := zero_dive\<lparr>dive_id := 1, dive_when := 1000, selected := True, duration := 600\<rparr>,
         2 := zero_dive\<lparr>dive_id := 2, dive_when := 2000, selected := True, duration := 600\<rparr>,
         3 := zero_dive\<lparr>dive_id := 3, dive_when := 3000, selected := True, duration := 600\<rparr>),
      dive_table := [1, 2, 3], amount_selected := 3, current_dive := Some 2, next_dive := 4\<rparr>"

text \<open>
  Two registered dives in the order of \<open>comp_dives\<close> (by start time), the earlier one
  carrying the larger id.
\<close>

definition ids_out_of_order :: divelist where
  "ids_out_of_order = empty_divelist
     \<lparr>dive_heap := (\<lambda>_. zero_dive)
        (1 := zero_dive\<lparr>dive_id := 2, dive_when := 100\<rparr>,
         2 := zero_dive\<lparr>dive_id := 1, dive_when := 200\<rparr>),
      dive_table := [1, 2], next_dive := 3\<rparr>"

text \<open>The end of a dive as start plus duration, for the examples.\<close>

definition when_plus_duration :: "dive \<Rightarrow> int" where
  "when_plus_duration d = dive_when d + duration d"

text \<open>
  The pressures \<open>calculate_airuse\<close> works with: the recorded start and end pressure of
  a cylinder, or the sampled one when none is recorded; a cylinder has no usable
  pressure drop when it has no end pressure or its start pressure is not above its end
  pressure; \<open>gas_used\<close> is the volume difference between the two.
\<close>

definition start_pressure :: "cylinder \<Rightarrow> int" where
  "start_pressure cyl = (if cyl_start cyl \<noteq> 0 then cyl_start cyl else sample_start cyl)"

definition end_pressure :: "cylinder \<Rightarrow> int" where
  "end_pressure cyl = (if cyl_end cyl \<noteq> 0 then cyl_end cyl else sample_end cyl)"

definition no_pressure_drop :: "cylinder \<Rightarrow> bool" where
  "no_pressure_drop cyl \<longleftrightarrow> end_pressure cyl = 0 \<or> start_pressure cyl \<le> end_pressure cyl"

definition gas_used :: "(cylinder \<Rightarrow> int \<Rightarrow> int) \<Rightarrow> cylinder \<Rightarrow> int" where
  "gas_used gas_volume cyl =
     gas_volume cyl (start_pressure cyl) - gas_volume cyl (end_pressure cyl)"

definition used_without_drop :: "(dive \<Rightarrow> nat \<Rightarrow> bool) \<Rightarrow> dive \<Rightarrow> bool" where
  "used_without_drop is_cylinder_used d \<longleftrightarrow>
     (\<exists>i < length (cylinders d). is_cylinder_used d i \<and> no_pressure_drop (cylinders d ! i))"

text \<open>
  Example cylinders and dives: a 12 l cylinder breathed from 200 bar down to 50 bar,
  the same cylinder with a start pressure but no end pressure, and one whose recorded
  end pressure (150 bar) lies above its start pressure (100 bar).
  \<open>ideal_gas_volume\<close> is size times pressure; \<open>first_cylinder_used\<close> and
  \<open>no_cylinder_used\<close> stand for \<open>is_cylinder_used\<close>.
\<close>

definition breathed_cylinder :: cylinder where
  "breathed_cylinder = \<lparr>cyl_start = 200000, cyl_end = 50000, sample_start = 0, sample_end = 0,
     size_mliter = 12000\<rparr>"

definition open_ended_cylinder :: cylinder where
  "open_ended_cylinder = \<lparr>cyl_start = 200000, cyl_end = 0, sample_start = 0, sample_end = 0,
     size_mliter = 12000\<rparr>"

definition refilled_cylinder :: cylinder where
  "refilled_cylinder = \<lparr>cyl_start = 100000, cyl_end = 150000, sample_start = 0, sample_end = 0,
     size_mliter = 12000\<rparr>"

definition ideal_gas_volume :: "cylinder \<Rightarrow> int \<Rightarrow> int" where
  "ideal_gas_volume cyl p = size_mliter cyl * p div 1000"

definition first_cylinder_used :: "dive \<Rightarrow> nat \<Rightarrow> bool" where
  "first_cylinder_used d i \<longleftrightarrow> i = 0"

definition no_cylinder_used :: "dive \<Rightarrow> nat \<Rightarrow> bool" where
  "no_cylinder_used d i \<longleftrightarrow> False"

text \<open>
  The selection invariant: \<open>amount_selected\<close> is the number of dives of the global
  dive table whose \<open>selected\<close> flag is set.
\<close>

definition selected_in_table :: "divelist \<Rightarrow> dive_ref set" where
  "selected_in_table s = {d \<in> set (dive_table s). selected (dive_heap s d)}"

definition selection_invariant :: "divelist \<Rightarrow> bool" where
  "selection_invariant s \<longleftrightarrow> unat (amount_selected s) = card (selected_in_table s)"

text \<open>
  The autogroup scenarios: an otherwise empty divelist with autogrouping on and two
  trip-less dives, A (address 1, id 1) starting at 1000 and B (address 2, id 2)
  starting \<open>gap\<close> later.
\<close>

definition two_tripless :: "int \<Rightarrow> divelist" where
  "two_tripless gap = empty_divelist
     \<lparr>dive_heap := (\<lambda>_. zero_dive)
        (1 := zero_dive\<lparr>dive_id := 1, dive_when := 1000\<rparr>,
         2 := zero_dive\<lparr>dive_id := 2, dive_when := 1000 + gap\<rparr>),
      dive_table := [1, 2], autogroup := True, next_dive := 3\<rparr>"

text \<open>
  The import scenarios. \<open>log_ending_42\<close>: a global dive table whose only dive (address
  4) is numbered 42; \<open>late_numbered_log\<close>: three dives (addresses 2, 3, 4) of which
  only the last is numbered, with number 1. In both, the dives at addresses 5, 6 and 7
  are numberless dives that start after every dive of the table and are not registered
  anywhere. \<open>never_merge\<close> stands for a \<open>try_to_merge\<close> that finds nothing to merge.
\<close>

definition log_ending_42 :: divelist where
  "log_ending_42 = empty_divelist
     \<lparr>dive_heap := (\<lambda>_. zero_dive)
        (4 := zero_dive\<lparr>dive_id := 4, dive_when := 1000, number := 42, duration := 600\<rparr>,
         5 := zero_dive\<lparr>dive_id := 5, dive_when := 5000, duration := 600\<rparr>,
         6 := zero_dive\<lparr>dive_id := 6, dive_when := 6000, duration := 600\<rparr>,
         7 := zero_dive\<lparr>dive_id := 7, dive_when := 7000, duration := 600\<rparr>),
      dive_table := [4], next_dive := 8\<rparr>"

definition late_numbered_log :: divelist where
  "late_numbered_log = empty_divelist
     \<lparr>dive_heap := (\<lambda>_. zero_dive)
        (2 := zero_dive\<lparr>dive_id := 2, dive_when := 1000, duration := 600\<rparr>,
         3 := zero_dive\<lparr>dive_id := 3, dive_when := 2000, duration := 600\<rparr>,
         4 := zero_dive\<lparr>dive_id := 4, dive_when := 3000, number := 1, duration := 600\<rparr>,
         5 := zero_dive\<lparr>dive_id := 5, dive_when := 5000, duration := 600\<rparr>,
         6 := zero_dive\<lparr>dive_id := 6, dive_when := 6000, duration := 600\<rparr>,
         7 := zero_dive\<lparr>dive_id := 7, dive_when := 7000, duration := 600\<rparr>),
      dive_table := [2, 3, 4], next_dive := 8\<rparr>"

definition never_merge :: "dive \<Rightarrow> dive \<Rightarrow> bool \<Rightarrow> dive option" where
  "never_merge a b prefer = None"

definition no_flags :: import_flags where
  "no_flags = \<lparr>prefer_imported = False, merge_all_trips = False, is_downloaded = False,
     add_to_new_trip = False\<rparr>"

text \<open>
  What the renumbering claim talks about: the number of the last dive of the global
  dive table (0 for an empty table), and the numbers of the dives of \<open>dives_to_add\<close>
  in table order.
\<close>

definition last_number :: "divelist \<Rightarrow> int" where
  "last_number s =
     (if dive_table s = [] then 0 else number (dive_heap s (last (dive_table s))))"

definition added_numbers :: "import_plan \<Rightarrow> int list" where
  "added_numbers pl = map (\<lambda>d. number (dive_heap (plan_state pl) d)) (dives_to_add pl)"

text \<open>
  A store \<open>s'\<close> reached from \<open>s\<close> by planning an import: the global dive table is the
  same, the allocator has only moved up, and the dives that existed keep their
  numbers.
\<close>

definition numbers_kept :: "divelist \<Rightarrow> divelist \<Rightarrow> bool" where
  "numbers_kept s s' \<longleftrightarrow>
     dive_table s' = dive_table s \<and> next_dive s \<le> next_dive s' \<and>
     (\<forall>d < next_dive s. number (dive_heap s' d) = number (dive_heap s d))"

section \<open>Ordered tables: facts\<close>

lemmas example_defs = three_dives_def ids_out_of_order_def empty_divelist_def zero_dive_def
  zero_trip_def table_ids_def table_whens_def

lemma get_idx_from_eq:
  "get_idx_from t item i =
     (if item \<in> set t then i + int (length (takeWhile (\<lambda>x. x \<noteq> item) t)) else -1)"
  by (induction t arbitrary: i) auto

lemma remove_at_first:
  "item \<in> set t \<Longrightarrow>
     remove_from_table t (length (takeWhile (\<lambda>x. x \<noteq> item) t)) = remove1 item t"
  by (induction t) (auto simp: remove_from_table_def)

lemma remove_from_table_first:
  "item \<in> set t \<Longrightarrow> remove_from_table t (nat (get_idx_in_table t item)) = remove1 item t"
  by (simp add: get_idx_in_table_def get_idx_from_eq remove_at_first)

lemma get_idx_in_table_sign: "0 \<le> get_idx_in_table t item \<longleftrightarrow> item \<in> set t"
  by (simp add: get_idx_in_table_def get_idx_from_eq)

lemma remove_dive_remove1: "remove_dive t item = remove1 item t"
  by (cases "item \<in> set t")
     (simp_all add: remove_dive_def Let_def remove_from_table_first get_idx_in_table_sign remove1_idem)

lemma copy_non_empty_string_last: "copy_non_empty_string a b = last_non_empty a b"
  by (simp add: copy_non_empty_string_def copy_string_def last_non_empty_def)

text \<open>
  Claim C9. \<open>unregister_trip\<close> requires a trip without dives: when the trip's dive
  table is empty the assertion holds and the call returns the table with the trip
  taken out (its first occurrence, so the trip is gone from a table that lists it
  once); when the trip still has dives the assertion fails.
\<close>

theorem unregister_trip_requires_empty:
  "(dives (trip_heap s trip) = [] \<longrightarrow>
      unregister_trip s trip table = Inr (remove1 trip table) \<and>
      (distinct table \<longrightarrow> trip \<notin> set (remove1 trip table))) \<and>
   (dives (trip_heap s trip) \<noteq> [] \<longrightarrow> unregister_trip s trip table = Inl AssertionFailed)"
  by (cases "trip \<in> set table")
     (simp_all add: unregister_trip_def Let_def get_idx_in_table_sign remove_from_table_first
        remove1_idem)

theorem unregister_trip_requires_empty_witness:
  "unregister_trip two_trips 0 (trip_table two_trips) = Inr [1] \<and>
   unregister_trip two_trips 1 (trip_table two_trips) = Inl AssertionFailed"
  using unregister_trip_requires_empty [of two_trips 0 "trip_table two_trips"]
        unregister_trip_requires_empty [of two_trips 1 "trip_table two_trips"]
  by (simp add: two_trips_def empty_divelist_def zero_trip_def)

text \<open>
  Claim C5, as amended. \<open>combine_trips a b\<close> allocates a new trip whose location and
  notes are each the \<^emph>\<open>last\<close> non-empty of the two (\<open>b\<close>'s when \<open>b\<close>'s is non-empty,
  else \<open>a\<close>'s); the new trip has no dives, and \<open>a\<close>, \<open>b\<close>, every other trip, the
  dives and both tables are untouched.
\<close>

theorem combine_trips_prefers_second:
  assumes "trip_a < next_trip s" and "trip_b < next_trip s"
  shows "case combine_trips trip_a trip_b s of (trip, s') \<Rightarrow>
           trip = next_trip s \<and>
           location (trip_heap s' trip) =
             last_non_empty (location (trip_heap s trip_a)) (location (trip_heap s trip_b)) \<and>
           trip_notes (trip_heap s' trip) =
             last_non_empty (trip_notes (trip_heap s trip_a)) (trip_notes (trip_heap s trip_b)) \<and>
           dives (trip_heap s' trip) = [] \<and>
           (\<forall>t. t \<noteq> trip \<longrightarrow> trip_heap s' t = trip_heap s t) \<and>
           trip_heap s' trip_a = trip_heap s trip_a \<and>
           trip_heap s' trip_b = trip_heap s trip_b \<and>
           dive_heap s' = dive_heap s \<and> dive_table s' = dive_table s \<and>
           trip_table s' = trip_table s"
  using assms
  by (simp add: combine_trips_def alloc_trip_def Let_def copy_non_empty_string_last zero_trip_def)

theorem combine_trips_prefers_second_witness:
  "(0::nat) < next_trip two_trips \<and> (1::nat) < next_trip two_trips \<and>
   location (trip_heap (snd (combine_trips 0 1 two_trips)) (fst (combine_trips 0 1 two_trips)))
     = Some ''Bonaire'' \<and>
   trip_notes (trip_heap (snd (combine_trips 0 1 two_trips)) (fst (combine_trips 0 1 two_trips)))
     = Some ''wall dives'' \<and>
   dives (trip_heap (snd (combine_trips 0 1 two_trips)) 1) = [7]"
  using combine_trips_prefers_second [of 0 two_trips 1]
  by (simp add: two_trips_def empty_divelist_def zero_trip_def last_non_empty_def empty_string_def
      split: prod.splits)

text \<open>
  The claim as stated (the \<^emph>\<open>first\<close> non-empty of the two) fails when both trips have a
  location: the new trip takes the second one.
\<close>

theorem combine_trips_first_non_empty_counterexample:
  "location (trip_heap (snd (combine_trips 0 1 two_trips)) (fst (combine_trips 0 1 two_trips)))
     = Some ''Bonaire'' \<and>
   first_non_empty (location (trip_heap two_trips 0)) (location (trip_heap two_trips 1))
     = Some ''Red Sea'' \<and>
   location (trip_heap (snd (combine_trips 0 1 two_trips)) (fst (combine_trips 0 1 two_trips)))
     \<noteq> first_non_empty (location (trip_heap two_trips 0)) (location (trip_heap two_trips 1))"
  by (simp add: combine_trips_def alloc_trip_def Let_def copy_non_empty_string_def
      copy_string_def empty_string_def first_non_empty_def two_trips_def empty_divelist_def
      zero_trip_def)

section \<open>Air use: facts\<close>

text \<open>\<open>lrint\<close> rounds to the nearest integer and breaks ties towards the even one.\<close>

lemma lrint_ties_to_even:
  "lrint 70312.5 = 70312" "lrint 70313.5 = 70314" "lrint 70312.4 = 70312"
  "lrint 70312.6 = 70313" "lrint (- 2.5) = - 2" "lrint 3 = 3"
  by (simp_all add: lrint_def)

text \<open>
  A dive whose one cylinder gave 75 litres over 32 seconds at 2 atm: the rate is 70312.5
  millilitres per minute, which \<open>calculate_sac\<close> returns as 70312.
\<close>

lemma calculate_sac_tie:
  "calculate_sac (\<lambda>d i. True) (\<lambda>cyl p. p) (\<lambda>mm d. 2)
     (zero_dive\<lparr>cylinders := [\<lparr>cyl_start = 75001, cyl_end = 1, sample_start = 0,
                                  sample_end = 0, size_mliter = 0\<rparr>],
                 dc_duration := 32, dc_meandepth := 10000\<rparr>) = 70312"
  by (simp add: calculate_sac_def calculate_airuse_def zero_dive_def lrint_def)

lemma airuse_loop_result:
  "airuse_loop used gv cyls i acc =
     (if \<exists>k < length cyls. used (i + k) \<and> no_pressure_drop (cyls ! k) then 0
      else real_of_int (acc + (\<Sum>cyl \<leftarrow> filter (\<lambda>c. \<not> no_pressure_drop c) cyls. gas_used gv cyl)) / 1000)"
proof (induction cyls arbitrary: i acc)
  case Nil
  then show ?case by simp
next
  case (Cons cyl cyls)
  have shift: "(\<exists>k < length (cyl # cyls). used (i + k) \<and> no_pressure_drop ((cyl # cyls) ! k)) \<longleftrightarrow>
      (used i \<and> no_pressure_drop cyl) \<or>
      (\<exists>k < length cyls. used (Suc i + k) \<and> no_pressure_drop (cyls ! k))"
    by (auto simp: less_Suc_eq_0_disj)
  show ?case
  proof (cases "no_pressure_drop cyl")
    case True
    then have "airuse_loop used gv (cyl # cyls) i acc =
        (if used i then 0 else airuse_loop used gv cyls (Suc i) acc)"
      by (simp add: no_pressure_drop_def start_pressure_def end_pressure_def Let_def)
    with True show ?thesis unfolding shift Cons.IH by auto
  next
    case False
    then have "airuse_loop used gv (cyl # cyls) i acc =
        airuse_loop used gv cyls (Suc i) (acc + gas_used gv cyl)"
      by (simp add: no_pressure_drop_def start_pressure_def end_pressure_def gas_used_def Let_def)
    with False show ?thesis unfolding shift Cons.IH by (auto simp: add.assoc)
  qed
qed

text \<open>
  Claim C8, as amended. If some used cylinder of a dive has no usable pressure drop,
  \<open>calculate_airuse\<close> returns 0 and so does \<open>calculate_sac\<close>. Otherwise
  \<open>calculate_airuse\<close> is, in litres, one thousandth of the sum of
  \<open>gas_volume(cyl, start) - gas_volume(cyl, end)\<close> over the cylinders that have a
  usable pressure drop; cylinders without one (which are then unused) are skipped.
\<close>

theorem calculate_airuse_cases:
  "(used_without_drop is_cylinder_used d \<longrightarrow>
      calculate_airuse is_cylinder_used gas_volume d = 0 \<and>
      calculate_sac is_cylinder_used gas_volume depth_to_atm d = 0) \<and>
   (\<not> used_without_drop is_cylinder_used d \<longrightarrow>
      calculate_airuse is_cylinder_used gas_volume d =
        real_of_int (\<Sum>cyl \<leftarrow> filter (\<lambda>c. \<not> no_pressure_drop c) (cylinders d).
                        gas_used gas_volume cyl) / 1000)"
  by (auto simp: calculate_airuse_def calculate_sac_def airuse_loop_result used_without_drop_def)

theorem calculate_airuse_cases_witness:
  "used_without_drop first_cylinder_used (zero_dive\<lparr>cylinders := [open_ended_cylinder]\<rparr>) \<and>
   calculate_airuse first_cylinder_used ideal_gas_volume
     (zero_dive\<lparr>cylinders := [open_ended_cylinder]\<rparr>) = 0 \<and>
   calculate_sac first_cylinder_used ideal_gas_volume (\<lambda>mm d. 2)
     (zero_dive\<lparr>cylinders := [open_ended_cylinder]\<rparr>) = 0 \<and>
   \<not> used_without_drop first_cylinder_used (zero_dive\<lparr>cylinders := [breathed_cylinder]\<rparr>) \<and>
   calculate_airuse first_cylinder_used ideal_gas_volume
     (zero_dive\<lparr>cylinders := [breathed_cylinder]\<rparr>) = 1800"
  using calculate_airuse_cases [of first_cylinder_used "zero_dive\<lparr>cylinders := [open_ended_cylinder]\<rparr>"
          ideal_gas_volume "\<lambda>mm d. 2"]
        calculate_airuse_cases [of first_cylinder_used "zero_dive\<lparr>cylinders := [breathed_cylinder]\<rparr>"
          ideal_gas_volume "\<lambda>mm d. 2"]
  by (simp add: used_without_drop_def first_cylinder_used_def no_pressure_drop_def
      start_pressure_def end_pressure_def gas_used_def ideal_gas_volume_def zero_dive_def
      open_ended_cylinder_def breathed_cylinder_def)

text \<open>
  The claim as stated (the sum taken over the cylinders) fails in two ways. An unused
  cylinder without a usable pressure drop is left out of the sum by the code, though
  its volume difference need not be zero (here it is negative, the end pressure lying
  above the start pressure); and the result is in litres, one thousandth of the sum of
  the \<open>gas_volume\<close> differences.
\<close>

theorem calculate_airuse_sum_counterexample:
  "\<not> used_without_drop no_cylinder_used (zero_dive\<lparr>cylinders := [refilled_cylinder]\<rparr>) \<and>
   calculate_airuse no_cylinder_used ideal_gas_volume
     (zero_dive\<lparr>cylinders := [refilled_cylinder]\<rparr>) = 0 \<and>
   (\<Sum>cyl \<leftarrow> cylinders (zero_dive\<lparr>cylinders := [refilled_cylinder]\<rparr>).
      gas_used ideal_gas_volume cyl) = - 600000 \<and>
   calculate_airuse no_cylinder_used ideal_gas_volume
     (zero_dive\<lparr>cylinders := [refilled_cylinder]\<rparr>) \<noteq>
   real_of_int (\<Sum>cyl \<leftarrow> cylinders (zero_dive\<lparr>cylinders := [refilled_cylinder]\<rparr>).
      gas_used ideal_gas_volume cyl) \<and>
   \<not> used_without_drop first_cylinder_used (zero_dive\<lparr>cylinders := [breathed_cylinder]\<rparr>) \<and>
   calculate_airuse first_cylinder_used ideal_gas_volume
     (zero_dive\<lparr>cylinders := [breathed_cylinder]\<rparr>) = 1800 \<and>
   (\<Sum>cyl \<leftarrow> cylinders (zero_dive\<lparr>cylinders := [breathed_cylinder]\<rparr>).
      gas_used ideal_gas_volume cyl) = 1800000 \<and>
   calculate_airuse first_cylinder_used ideal_gas_volume
     (zero_dive\<lparr>cylinders := [breathed_cylinder]\<rparr>) \<noteq>
   real_of_int (\<Sum>cyl \<leftarrow> cylinders (zero_dive\<lparr>cylinders := [breathed_cylinder]\<rparr>).
      gas_used ideal_gas_volume cyl)"
  by (simp add: calculate_airuse_def used_without_drop_def first_cylinder_used_def
      no_cylinder_used_def no_pressure_drop_def
      start_pressure_def end_pressure_def gas_used_def ideal_gas_volume_def zero_dive_def
      refilled_cylinder_def breathed_cylinder_def)

section \<open>Selection: facts\<close>

declare pick_before.simps [simp del] pick_after.simps [simp del]

lemma card_selected_le: "card (selected_in_table s) \<le> length (dive_table s)"
proof -
  have "card (selected_in_table s) \<le> card (set (dive_table s))"
    by (rule card_mono) (auto simp: selected_in_table_def)
  also have "\<dots> \<le> length (dive_table s)" by (rule card_length)
  finally show ?thesis .
qed

lemma finite_selected [simp]: "finite (selected_in_table s)"
  by (simp add: selected_in_table_def)

lemma amount_succ:
  assumes "unat (a :: 32 word) = n" and "n < 2 ^ 31"
  shows "unat (a + 1) = Suc n"
proof -
  have "unat a + unat (1 :: 32 word) < 2 ^ LENGTH(32)" using assms by simp
  then have "unat (a + 1) = unat a + unat (1 :: 32 word)" by (simp only: unat_add_lem)
  with assms show ?thesis by simp
qed

lemma amount_pred:
  assumes "unat (a :: 32 word) = n" and "0 < n"
  shows "a \<noteq> 0 \<and> unat (a - 1) = n - 1"
proof -
  from assms have "a \<noteq> 0" by auto
  then show ?thesis using assms by (simp add: unat_minus_one)
qed

lemma select_dive_invariant:
  assumes inv: "selection_invariant s" and mem: "p \<in> set (dive_table s)"
    and len: "length (dive_table s) < 2 ^ 31"
  shows "selection_invariant (select_dive (Some p) s)"
proof (cases "selected (dive_heap s p)")
  case True
  then have "selected_in_table (select_dive (Some p) s) = selected_in_table s"
    by (simp add: select_dive_def selected_in_table_def)
  with inv True show ?thesis by (simp add: selection_invariant_def select_dive_def)
next
  case False
  then have set_eq: "selected_in_table (select_dive (Some p) s) = insert p (selected_in_table s)"
    using mem by (auto simp: select_dive_def selected_in_table_def)
  have "p \<notin> selected_in_table s" using False by (simp add: selected_in_table_def)
  then have card_eq: "card (selected_in_table (select_dive (Some p) s)) = Suc (card (selected_in_table s))"
    by (simp add: set_eq)
  have "card (selected_in_table s) < 2 ^ 31"
    using card_selected_le [of s] len by simp
  with inv have "unat (amount_selected s + 1) = Suc (card (selected_in_table s))"
    by (intro amount_succ) (simp_all add: selection_invariant_def)
  with False card_eq show ?thesis by (simp add: selection_invariant_def select_dive_def)
qed

lemma deselect_dive_frame:
  "dive_table (deselect_dive dive s) = dive_table s \<and>
   trip_table (deselect_dive dive s) = trip_table s \<and>
   trip_heap (deselect_dive dive s) = trip_heap s \<and>
   next_trip (deselect_dive dive s) = next_trip s \<and>
   autogroup (deselect_dive dive s) = autogroup s"
  by (simp add: deselect_dive_def Let_def split: option.splits)

lemma deselect_dive_heap:
  "selected (dive_heap s p) \<Longrightarrow>
     dive_heap (deselect_dive (Some p) s) = (dive_heap s)(p := (dive_heap s p)\<lparr>selected := False\<rparr>)"
  by (simp add: deselect_dive_def Let_def split: option.splits)

lemma deselect_dive_amount:
  "selected (dive_heap s p) \<Longrightarrow>
     amount_selected (deselect_dive (Some p) s) =
       (if amount_selected s \<noteq> 0 then amount_selected s - 1 else amount_selected s)"
  by (simp add: deselect_dive_def Let_def split: option.splits)

lemma deselect_dive_unselected:
  "\<not> selected (dive_heap s p) \<Longrightarrow> deselect_dive (Some p) s = s"
  by (simp add: deselect_dive_def)

lemma deselect_dive_invariant:
  assumes inv: "selection_invariant s" and mem: "p \<in> set (dive_table s)"
  shows "selection_invariant (deselect_dive (Some p) s)"
proof (cases "selected (dive_heap s p)")
  case False
  with inv show ?thesis by (simp add: deselect_dive_unselected)
next
  case True
  have set_eq: "selected_in_table (deselect_dive (Some p) s) = selected_in_table s - {p}"
    using True by (auto simp: selected_in_table_def deselect_dive_frame deselect_dive_heap)
  have "p \<in> selected_in_table s" using True mem by (simp add: selected_in_table_def)
  then have pos: "0 < card (selected_in_table s)" by (auto simp: card_gt_0_iff)
  from inv have "unat (amount_selected s) = card (selected_in_table s)"
    by (simp add: selection_invariant_def)
  from amount_pred [OF this pos] True \<open>p \<in> selected_in_table s\<close> show ?thesis
    by (simp add: selection_invariant_def set_eq deselect_dive_amount)
qed

lemma filter_dive_invariant:
  assumes inv: "selection_invariant s" and mem: "p \<in> set (dive_table s)"
  shows "selection_invariant (filter_dive (Some p) shown s)"
proof -
  define s1 where "s1 = s\<lparr>dive_heap := (dive_heap s)(p := (dive_heap s p)\<lparr>hidden_by_filter := \<not> shown\<rparr>)\<rparr>"
  have "selected_in_table s1 = selected_in_table s"
    by (auto simp: s1_def selected_in_table_def)
  with inv have inv1: "selection_invariant s1" by (simp add: selection_invariant_def s1_def)
  have mem1: "p \<in> set (dive_table s1)" using mem by (simp add: s1_def)
  have "filter_dive (Some p) shown s =
      (if \<not> shown \<and> selected (dive_heap s1 p) then deselect_dive (Some p) s1 else s1)"
    by (simp add: filter_dive_def s1_def Let_def)
  with inv1 deselect_dive_invariant [OF inv1 mem1] show ?thesis by simp
qed

lemma set_remove_from_table:
  assumes "i < length t"
  shows "set t - {t ! i} \<subseteq> set (remove_from_table t i) \<and> set (remove_from_table t i) \<subseteq> set t"
proof -
  have "set t = set (take i t @ t ! i # drop (Suc i) t)"
    by (rule arg_cong [where f = set, OF id_take_nth_drop [OF assms]])
  then have split: "set t = set (take i t) \<union> {t ! i} \<union> set (drop (Suc i) t)"
    by (simp only: set_append list.simps(15)) blast
  have "set (remove_from_table t i) = set (take i t) \<union> set (drop (Suc i) t)"
    using assms by (simp add: remove_from_table_def)
  with split show ?thesis by blast
qed

lemma get_dive_Some:
  "get_dive s idx = Some p \<longleftrightarrow> 0 \<le> idx \<and> nat idx < length (dive_table s) \<and> p = dive_table s ! nat idx"
  by (auto simp: get_dive_def)

lemma unregister_dive_invariant:
  assumes inv: "selection_invariant s"
  shows "selection_invariant (snd (unregister_dive idx s))"
proof (cases "get_dive s idx")
  case None
  with inv show ?thesis by (simp add: unregister_dive_def)
next
  case (Some p)
  then have idx: "nat idx < length (dive_table s)" and p: "p = dive_table s ! nat idx"
    by (simp_all add: get_dive_Some)
  define s' where "s' = snd (unregister_dive idx s)"
  have tab: "dive_table s' = remove_from_table (dive_table s) (nat idx)"
    and heap: "dive_heap s' = (dive_heap s)(p := (dive_heap s p)\<lparr>selected := False\<rparr>)"
    and amt: "amount_selected s' =
      (if selected (dive_heap s p) then amount_selected s - 1 else amount_selected s)"
    using Some by (simp_all add: s'_def unregister_dive_def Let_def)
  have set_eq: "selected_in_table s' = selected_in_table s - {p}"
    using set_remove_from_table [OF idx] p
    by (auto simp: selected_in_table_def tab heap)
  from inv have eq: "unat (amount_selected s) = card (selected_in_table s)"
    by (simp add: selection_invariant_def)
  show ?thesis
  proof (cases "selected (dive_heap s p)")
    case True
    then have "p \<in> selected_in_table s" using idx p by (simp add: selected_in_table_def)
    then have "0 < card (selected_in_table s)" by (auto simp: card_gt_0_iff)
    from amount_pred [OF eq this] True \<open>p \<in> selected_in_table s\<close> show ?thesis
      by (simp add: selection_invariant_def s'_def [symmetric] set_eq amt)
  next
    case False
    then have "p \<notin> selected_in_table s" by (simp add: selected_in_table_def)
    with False eq show ?thesis
      by (simp add: selection_invariant_def s'_def [symmetric] set_eq amt)
  qed
qed

lemma add_single_dive_invariant:
  assumes inv: "selection_invariant s" and lo: "0 \<le> idx" and hi: "idx \<le> int (length (dive_table s))"
    and fresh: "p \<notin> set (dive_table s)" and len: "length (dive_table s) < 2 ^ 31"
  shows "\<exists>s'. add_single_dive idx p s = Inr s' \<and> selection_invariant s' \<and>
           dive_table s' = take (nat idx) (dive_table s) @ p # drop (nat idx) (dive_table s)"
proof -
  define s1 where "s1 = s\<lparr>dive_table := add_to_table (dive_table s) (nat idx) p\<rparr>"
  define s' where "s' = (if selected (dive_heap s1 p)
                 then s1\<lparr>amount_selected := amount_selected s1 + 1\<rparr> else s1)"
  have res: "add_single_dive idx p s = Inr s'"
    using lo hi by (simp add: add_single_dive_def s'_def s1_def Let_def)
  have "set (take (nat idx) (dive_table s) @ p # drop (nat idx) (dive_table s)) =
      insert p (set (take (nat idx) (dive_table s) @ drop (nat idx) (dive_table s)))"
    by (simp only: set_append list.simps(15)) blast
  then have "set (dive_table s') = insert p (set (dive_table s))"
    by (simp add: s'_def s1_def add_to_table_def)
  then have set_eq: "selected_in_table s' =
      (if selected (dive_heap s p) then insert p (selected_in_table s) else selected_in_table s)"
    by (auto simp: selected_in_table_def s'_def s1_def)
  from inv have eq: "unat (amount_selected s) = card (selected_in_table s)"
    by (simp add: selection_invariant_def)
  have "p \<notin> selected_in_table s" using fresh by (simp add: selected_in_table_def)
  have bound: "card (selected_in_table s) < 2 ^ 31" using card_selected_le [of s] len by simp
  have "selection_invariant s'"
  proof (cases "selected (dive_heap s p)")
    case True
    with amount_succ [OF eq bound] \<open>p \<notin> selected_in_table s\<close> show ?thesis
      by (simp add: selection_invariant_def set_eq) (simp add: s'_def s1_def)
  next
    case False
    with eq show ?thesis
      by (simp add: selection_invariant_def set_eq) (simp add: s'_def s1_def)
  qed
  moreover have "dive_table s' = take (nat idx) (dive_table s) @ p # drop (nat idx) (dive_table s)"
    by (simp add: s'_def s1_def add_to_table_def)
  ultimately show ?thesis using res by simp
qed

lemma remove_dive_from_trip_frame:
  "\<exists>s'. remove_dive_from_trip p s = Inr s' \<and> dive_table s' = dive_table s \<and>
     amount_selected s' = amount_selected s \<and> current_dive s' = current_dive s \<and>
     (\<forall>d. selected (dive_heap s' d) = selected (dive_heap s d))"
  by (auto simp: remove_dive_from_trip_def unregister_dive_from_trip_def delete_trip_def
      unregister_trip_def Let_def split: option.splits)

lemma delete_single_dive_invariant:
  assumes inv: "selection_invariant s"
  shows "\<exists>s'. delete_single_dive idx s = Inr s' \<and> selection_invariant s'"
proof (cases "get_dive s idx")
  case None
  with inv show ?thesis by (simp add: delete_single_dive_def)
next
  case (Some p)
  then have idx: "nat idx < length (dive_table s)" and p: "p = dive_table s ! nat idx"
    by (simp_all add: get_dive_Some)
  then have mem: "p \<in> set (dive_table s)" by simp
  define s1 where "s1 = (if selected (dive_heap s p) then deselect_dive (Some p) s else s)"
  have inv1: "selection_invariant s1"
    using inv deselect_dive_invariant [OF inv mem] by (simp add: s1_def)
  have tab1: "dive_table s1 = dive_table s" by (simp add: s1_def deselect_dive_frame)
  have unsel1: "\<not> selected (dive_heap s1 p)"
    by (simp add: s1_def deselect_dive_heap)
  from remove_dive_from_trip_frame [of p s1] obtain s2 where
    s2: "remove_dive_from_trip p s1 = Inr s2" and tab2: "dive_table s2 = dive_table s1"
    and amt2: "amount_selected s2 = amount_selected s1"
    and sel2: "\<forall>d. selected (dive_heap s2 d) = selected (dive_heap s1 d)" by blast
  define s3 where "s3 = s2\<lparr>dive_table := delete_dive_from_table (dive_table s2) (nat idx)\<rparr>"
  have res: "delete_single_dive idx s = Inr s3"
    using Some s2 by (simp add: delete_single_dive_def s1_def [symmetric] s3_def Let_def)
  have "selected_in_table s3 = selected_in_table s1"
    using set_remove_from_table [OF idx] p unsel1 sel2
    by (auto simp: selected_in_table_def s3_def delete_dive_from_table_def tab2 tab1)
  with inv1 amt2 have "selection_invariant s3"
    by (simp add: selection_invariant_def s3_def)
  with res show ?thesis by simp
qed

text \<open>
  Claim C4, as amended. The invariant
  \<open>amount_selected = |{d in the global dive table : d.selected}|\<close> is preserved by
  \<open>select_dive\<close>, \<open>deselect_dive\<close> and \<open>filter_dive\<close> when they are called with
  \<open>NULL\<close> or with a dive of the global dive table, by \<open>unregister_dive\<close> and
  \<open>delete_single_dive\<close> for every index, and by \<open>add_single_dive\<close> when the index
  lies within \<open>0 .. nr\<close> and the dive is not yet in the table. (The table's \<open>nr\<close> is
  a C \<open>int\<close>, so it holds fewer than \<open>2^31\<close> dives; that keeps the increments of
  \<open>amount_selected\<close> from wrapping.)
\<close>

theorem selection_invariant_preserved:
  assumes "selection_invariant s"
  shows "selection_invariant (select_dive None s) \<and>
         (\<forall>p. p \<in> set (dive_table s) \<and> length (dive_table s) < 2 ^ 31 \<longrightarrow>
              selection_invariant (select_dive (Some p) s)) \<and>
         selection_invariant (deselect_dive None s) \<and>
         (\<forall>p. p \<in> set (dive_table s) \<longrightarrow> selection_invariant (deselect_dive (Some p) s)) \<and>
         (\<forall>shown. selection_invariant (filter_dive None shown s)) \<and>
         (\<forall>p shown. p \<in> set (dive_table s) \<longrightarrow>
              selection_invariant (filter_dive (Some p) shown s)) \<and>
         (\<forall>idx. selection_invariant (snd (unregister_dive idx s))) \<and>
         (\<forall>idx p. 0 \<le> idx \<and> idx \<le> int (length (dive_table s)) \<and> p \<notin> set (dive_table s) \<and>
              length (dive_table s) < 2 ^ 31 \<longrightarrow>
              (\<exists>s'. add_single_dive idx p s = Inr s' \<and> selection_invariant s')) \<and>
         (\<forall>idx. \<exists>s'. delete_single_dive idx s = Inr s' \<and> selection_invariant s')"
proof (intro conjI allI impI)
  show "selection_invariant (select_dive None s)"
    using assms by (simp add: select_dive_def)
  show "selection_invariant (deselect_dive None s)"
    using assms by (simp add: deselect_dive_def)
  show "selection_invariant (filter_dive None shown s)" for shown
    using assms by (simp add: filter_dive_def)
  show "selection_invariant (select_dive (Some p) s)"
    if "p \<in> set (dive_table s) \<and> length (dive_table s) < 2 ^ 31" for p
    using that by (simp add: select_dive_invariant [OF assms])
  show "selection_invariant (deselect_dive (Some p) s)" if "p \<in> set (dive_table s)" for p
    using that by (rule deselect_dive_invariant [OF assms])
  show "selection_invariant (filter_dive (Some p) shown s)" if "p \<in> set (dive_table s)" for p shown
    using that by (rule filter_dive_invariant [OF assms])
  show "selection_invariant (snd (unregister_dive idx s))" for idx
    by (rule unregister_dive_invariant [OF assms])
  show "\<exists>s'. add_single_dive idx p s = Inr s' \<and> selection_invariant s'"
    if "0 \<le> idx \<and> idx \<le> int (length (dive_table s)) \<and> p \<notin> set (dive_table s) \<and>
        length (dive_table s) < 2 ^ 31" for idx p
    using add_single_dive_invariant [OF assms, of idx p] that by blast
  show "\<exists>s'. delete_single_dive idx s = Inr s' \<and> selection_invariant s'" for idx
    by (rule delete_single_dive_invariant [OF assms])
qed

lemma three_dives_selected: "selected_in_table three_dives = {1, 2, 3}"
  by (auto simp: selected_in_table_def example_defs)

lemma three_dives_invariant: "selection_invariant three_dives"
  by (simp add: selection_invariant_def three_dives_selected) (simp add: example_defs)

theorem selection_invariant_preserved_witness:
  "selection_invariant three_dives \<and>
   (2::nat) \<in> set (dive_table three_dives) \<and> length (dive_table three_dives) < 2 ^ 31 \<and>
   selection_invariant (select_dive (Some 2) three_dives) \<and>
   selection_invariant (deselect_dive (Some 2) three_dives) \<and>
   selection_invariant (filter_dive (Some 2) False three_dives) \<and>
   selection_invariant (snd (unregister_dive 1 three_dives)) \<and>
   (7::nat) \<notin> set (dive_table three_dives) \<and>
   (\<exists>s'. add_single_dive 3 7 three_dives = Inr s' \<and> selection_invariant s') \<and>
   (\<exists>s'. delete_single_dive 1 three_dives = Inr s' \<and> selection_invariant s')"
proof -
  note p = selection_invariant_preserved [OF three_dives_invariant]
  have mem: "(2::nat) \<in> set (dive_table three_dives)" "length (dive_table three_dives) < 2 ^ 31"
    "(7::nat) \<notin> set (dive_table three_dives)"
    by (simp_all add: example_defs)
  have rng: "(0::int) \<le> 3 \<and> 3 \<le> int (length (dive_table three_dives))"
    by (simp add: example_defs)
  from p mem rng three_dives_invariant show ?thesis by blast
qed

text \<open>
  The claim as stated, for every call, fails: selecting a dive that is not in the
  global dive table raises \<open>amount_selected\<close> while the table has no selected dive.
\<close>

theorem selection_invariant_counterexample:
  "selection_invariant empty_divelist \<and>
   \<not> selection_invariant (select_dive (Some 5) empty_divelist) \<and>
   amount_selected (select_dive (Some 5) empty_divelist) = 1 \<and>
   selected_in_table (select_dive (Some 5) empty_divelist) = {}"
  by (simp add: selection_invariant_def selected_in_table_def select_dive_def example_defs)

lemma get_divenr_from_eq:
  "get_divenr_from h t ident i =
     (if ident \<in> set (map (\<lambda>d. dive_id (h d)) t)
      then i + int (length (takeWhile (\<lambda>d. dive_id (h d) \<noteq> ident) t)) else - 1)"
  by (induction t arbitrary: i) auto

lemma takeWhile_distinct_key:
  assumes "distinct (map f t)" and "i < length t"
  shows "takeWhile (\<lambda>d. f d \<noteq> f (t ! i)) t = take i t"
proof (rule takeWhile_eq_take_P_nth)
  fix k assume "k < i" "k < length t"
  with assms show "f (t ! k) \<noteq> f (t ! i)"
    by (simp add: distinct_conv_nth)
next
  show "\<not> f (t ! i) \<noteq> f (t ! i)" by simp
qed

lemma get_divenr_table_entry:
  assumes "distinct (table_ids s)" and "i < length (dive_table s)"
  shows "get_divenr s (Some (dive_table s ! i)) = int i"
proof -
  have "dive_id (dive_heap s (dive_table s ! i)) \<in> set (table_ids s)"
    using assms(2) by (simp add: table_ids_def)
  moreover have "takeWhile (\<lambda>d. dive_id (dive_heap s d) \<noteq> dive_id (dive_heap s (dive_table s ! i)))
      (dive_table s) = take i (dive_table s)"
    using assms by (intro takeWhile_distinct_key) (simp_all add: table_ids_def)
  ultimately show ?thesis
    using assms(2) by (simp add: get_divenr_def get_divenr_from_eq table_ids_def)
qed

lemma pick_before_find:
  "n \<le> length (dive_table s) \<Longrightarrow>
     pick_before s (int n) = List.find (\<lambda>d. selected (dive_heap s d)) (rev (take n (dive_table s)))"
proof (induction n)
  case 0
  show ?case by (subst pick_before.simps) simp
next
  case (Suc n)
  then have n: "n < length (dive_table s)" by simp
  then have gd: "get_dive s (int n) = Some (dive_table s ! n)" by (simp add: get_dive_def)
  have "pick_before s (int (Suc n)) =
      (if selected (dive_heap s (dive_table s ! n)) then Some (dive_table s ! n)
       else pick_before s (int n))"
    by (subst pick_before.simps) (simp add: gd)
  with Suc.IH n show ?case by (simp add: take_Suc_conv_app_nth)
qed

lemma pick_after_find:
  "- 1 \<le> i \<Longrightarrow>
     pick_after s i = List.find (\<lambda>d. selected (dive_heap s d)) (drop (nat (i + 1)) (dive_table s))"
proof (induction s i rule: pick_after.induct)
  case (1 s i)
  show ?case
  proof (cases "i + 1 < int (length (dive_table s))")
    case False
    then have "pick_after s i = None" by (subst pick_after.simps) simp
    with False show ?thesis by simp
  next
    case True
    with "1.prems" have n: "nat (i + 1) < length (dive_table s)" by simp
    then have gd: "get_dive s (i + 1) = Some (dive_table s ! nat (i + 1))"
      using "1.prems" by (simp add: get_dive_def)
    have unfold: "pick_after s i =
        (if selected (dive_heap s (dive_table s ! nat (i + 1))) then Some (dive_table s ! nat (i + 1))
         else pick_after s (i + 1))"
      using True by (subst pick_after.simps) (simp add: gd)
    have dr: "drop (nat (i + 1)) (dive_table s) =
        dive_table s ! nat (i + 1) # drop (nat (i + 1 + 1)) (dive_table s)"
    proof -
      have "nat (i + 1 + 1) = Suc (nat (i + 1))" using "1.prems" by simp
      with n show ?thesis by (simp only: Cons_nth_drop_Suc)
    qed
    show ?thesis
    proof (cases "selected (dive_heap s (dive_table s ! nat (i + 1)))")
      case sel: True
      with unfold dr show ?thesis by simp
    next
      case nsel: False
      from "1.prems" have "- 1 \<le> i + 1" by simp
      from "1.IH"(2) [OF True gd nsel this] unfold nsel dr show ?thesis by simp
    qed
  qed
qed

text \<open>
  Claim C3, as amended. Let a selected dive at position \<open>i\<close> of the global dive
  table be deselected, in a state where the ids of the table are distinct and the
  selection invariant holds. Then its \<open>selected\<close> flag is cleared (nothing else in
  the store changes) and \<open>amount_selected\<close> drops by one. If the dive was
  \<open>current_dive\<close>, the new \<open>current_dive\<close> is the first selected dive met scanning
  backwards from position \<open>i - 1\<close>, else the first met scanning forwards from
  \<open>i + 1\<close>, else null. If the dive was not \<open>current_dive\<close>, \<open>current_dive\<close>
  becomes null.
\<close>

theorem deselect_dive_effect:
  assumes i: "i < length (dive_table s)" and p: "dive_table s ! i = p"
    and ids: "distinct (table_ids s)" and sel: "selected (dive_heap s p)"
    and inv: "selection_invariant s"
  shows "dive_heap (deselect_dive (Some p) s) =
           (dive_heap s)(p := (dive_heap s p)\<lparr>selected := False\<rparr>) \<and>
         dive_table (deselect_dive (Some p) s) = dive_table s \<and>
         amount_selected s \<noteq> 0 \<and>
         amount_selected (deselect_dive (Some p) s) = amount_selected s - 1 \<and>
         unat (amount_selected (deselect_dive (Some p) s)) = unat (amount_selected s) - 1 \<and>
         (current_dive s = Some p \<longrightarrow>
            current_dive (deselect_dive (Some p) s) =
              (case List.find (\<lambda>d. selected (dive_heap (deselect_dive (Some p) s) d))
                      (rev (take i (dive_table s))) of
                 Some d \<Rightarrow> Some d
               | None \<Rightarrow> List.find (\<lambda>d. selected (dive_heap (deselect_dive (Some p) s) d))
                           (drop (Suc i) (dive_table s)))) \<and>
         (current_dive s \<noteq> Some p \<longrightarrow> current_dive (deselect_dive (Some p) s) = None)"
proof -
  define s' where "s' = deselect_dive (Some p) s"
  define s2 where "s2 = s\<lparr>dive_heap := (dive_heap s)(p := (dive_heap s p)\<lparr>selected := False\<rparr>),
                          amount_selected := amount_selected s - 1\<rparr>"
  have mem: "p \<in> set (dive_table s)" using i p by auto
  then have "p \<in> selected_in_table s" using sel by (simp add: selected_in_table_def)
  then have pos: "0 < card (selected_in_table s)" by (auto simp: card_gt_0_iff)
  from inv have eq: "unat (amount_selected s) = card (selected_in_table s)"
    by (simp add: selection_invariant_def)
  from amount_pred [OF eq pos] have nz: "amount_selected s \<noteq> 0"
    and dec: "unat (amount_selected s - 1) = unat (amount_selected s) - 1" by (simp_all add: eq)
  have heap: "dive_heap s' = dive_heap s2"
    and tab: "dive_table s' = dive_table s"
    and amt: "amount_selected s' = amount_selected s - 1"
    using sel nz by (simp_all add: s'_def s2_def deselect_dive_heap deselect_dive_frame
        deselect_dive_amount)
  have cur: "current_dive s' =
      (if current_dive s = Some p \<and> amount_selected s - 1 > 0 then
         (case pick_before s2 (get_divenr s2 (Some p)) of
            Some d \<Rightarrow> Some d
          | None \<Rightarrow> pick_after s2 (get_divenr s2 (Some p)))
       else None)"
    using sel nz
    by (simp add: s'_def deselect_dive_def Let_def s2_def [symmetric] split: option.splits)
      (simp add: s2_def)
  have ids2: "table_ids s2 = table_ids s"
    by (simp add: table_ids_def s2_def)
  have tab2: "dive_table s2 = dive_table s" by (simp add: s2_def)
  have nr: "get_divenr s2 (Some p) = int i"
    using get_divenr_table_entry [of s2 i] ids i p by (simp add: ids2 tab2)
  have before: "pick_before s2 (int i) =
      List.find (\<lambda>d. selected (dive_heap s' d)) (rev (take i (dive_table s)))"
    using pick_before_find [of i s2] i by (simp add: tab2 heap)
  have after: "pick_after s2 (int i) =
      List.find (\<lambda>d. selected (dive_heap s' d)) (drop (Suc i) (dive_table s))"
    using pick_after_find [of "int i" s2] by (simp add: tab2 heap nat_add_distrib)
  have promoted: "current_dive s' =
      (case List.find (\<lambda>d. selected (dive_heap s' d)) (rev (take i (dive_table s))) of
         Some d \<Rightarrow> Some d
       | None \<Rightarrow> List.find (\<lambda>d. selected (dive_heap s' d)) (drop (Suc i) (dive_table s)))"
    if c: "current_dive s = Some p"
  proof (cases "amount_selected s - 1 > 0")
    case True
    with c show ?thesis unfolding cur nr before after by simp
  next
    case False
    then have zero: "amount_selected s' = 0" by (simp add: amt word_gt_0)
    have "selection_invariant s'"
      unfolding s'_def by (rule deselect_dive_invariant [OF inv mem])
    with zero have "card (selected_in_table s') = 0" by (simp add: selection_invariant_def)
    then have none: "\<forall>d \<in> set (dive_table s). \<not> selected (dive_heap s' d)"
      by (auto simp: selected_in_table_def tab)
    have "List.find (\<lambda>d. selected (dive_heap s' d)) (rev (take i (dive_table s))) = None"
      using none by (auto simp: find_None_iff dest: in_set_takeD)
    moreover have "List.find (\<lambda>d. selected (dive_heap s' d)) (drop (Suc i) (dive_table s)) = None"
      using none by (auto simp: find_None_iff dest: in_set_dropD)
    ultimately show ?thesis using False by (simp add: cur)
  qed
  have dropped: "current_dive s' = None" if "current_dive s \<noteq> Some p"
    using that by (simp add: cur)
  from heap tab nz amt dec promoted dropped show ?thesis
    unfolding s'_def [symmetric] by (simp add: s2_def)
qed

theorem deselect_dive_effect_witness:
  "(1::nat) < length (dive_table three_dives) \<and> dive_table three_dives ! 1 = 2 \<and>
   distinct (table_ids three_dives) \<and> selected (dive_heap three_dives 2) \<and>
   selection_invariant three_dives \<and> current_dive three_dives = Some 2 \<and>
   \<not> selected (dive_heap (deselect_dive (Some 2) three_dives) 2) \<and>
   amount_selected (deselect_dive (Some 2) three_dives) = 2 \<and>
   current_dive (deselect_dive (Some 2) three_dives) = Some 1"
proof -
  have h: "(1::nat) < length (dive_table three_dives)" "dive_table three_dives ! 1 = 2"
    "distinct (table_ids three_dives)" "selected (dive_heap three_dives 2)"
    by (simp_all add: example_defs)
  have c: "current_dive three_dives = Some 2" by (simp add: example_defs)
  note e = deselect_dive_effect [OF h three_dives_invariant]
  from e have heap: "dive_heap (deselect_dive (Some 2) three_dives) =
      (dive_heap three_dives)(2 := (dive_heap three_dives 2)\<lparr>selected := False\<rparr>)" by simp
  from e have "amount_selected (deselect_dive (Some 2) three_dives) = amount_selected three_dives - 1"
    by simp
  then have amt: "amount_selected (deselect_dive (Some 2) three_dives) = 2"
    by (simp add: example_defs)
  from e c have "current_dive (deselect_dive (Some 2) three_dives) =
      (case List.find (\<lambda>d. selected (dive_heap (deselect_dive (Some 2) three_dives) d))
              (rev (take 1 (dive_table three_dives))) of
         Some d \<Rightarrow> Some d
       | None \<Rightarrow> List.find (\<lambda>d. selected (dive_heap (deselect_dive (Some 2) three_dives) d))
                   (drop (Suc 1) (dive_table three_dives)))" by blast
  then have cur: "current_dive (deselect_dive (Some 2) three_dives) = Some 1"
    unfolding heap by (simp add: example_defs)
  have "\<not> selected (dive_heap (deselect_dive (Some 2) three_dives) 2)"
    unfolding heap by simp
  with h c three_dives_invariant amt cur show ?thesis by simp
qed

text \<open>
  The claim as stated (a current dive other than the deselected one stays current)
  fails: with dives 1, 2, 3 selected and dive 1 current, deselecting dive 2 leaves no
  current dive.
\<close>

theorem deselect_dive_other_current_counterexample:
  "selected (dive_heap (three_dives\<lparr>current_dive := Some 1\<rparr>) 2) \<and>
   current_dive (three_dives\<lparr>current_dive := Some 1\<rparr>) = Some 1 \<and>
   current_dive (deselect_dive (Some 2) (three_dives\<lparr>current_dive := Some 1\<rparr>)) = None \<and>
   current_dive (deselect_dive (Some 2) (three_dives\<lparr>current_dive := Some 1\<rparr>)) \<noteq>
     current_dive (three_dives\<lparr>current_dive := Some 1\<rparr>)"
  by (simp add: deselect_dive_def Let_def example_defs)

section \<open>Queries by time: facts\<close>

declare first_later.simps [simp del] last_earlier.simps [simp del]

text \<open>
  A table in the order of \<open>comp_dives\<close> is sorted by start time, which is all the
  results below need of the order.
\<close>

lemma comp_dives_when:
  "comp_dives s a b \<le> 0 \<Longrightarrow> dive_when (dive_heap s a) \<le> dive_when (dive_heap s b)"
  by (auto simp: comp_dives_def Let_def split: if_splits)

lemma dive_table_sorted_whens:
  "dive_table_sorted s (dive_table s) \<Longrightarrow> sorted (table_whens s)"
  unfolding dive_table_sorted_def table_whens_def sorted_map
  by (erule sorted_wrt_mono_rel [rotated]) (rule comp_dives_when)

lemma first_later_bounds:
  "i \<le> length (dive_table s) \<Longrightarrow>
     i \<le> first_later s w i \<and> first_later s w i \<le> length (dive_table s)"
proof (induction s w i rule: first_later.induct)
  case (1 s w i)
  then show ?case
    by (subst (1 2) first_later.simps) (auto simp: Suc_le_eq)
qed

lemma first_later_passed:
  "i \<le> k \<Longrightarrow> k < first_later s w i \<Longrightarrow> table_whens s ! k \<le> w \<and> k < length (dive_table s)"
proof (induction s w i rule: first_later.induct)
  case (1 s w i)
  show ?case
  proof (cases "i < length (dive_table s) \<and> dive_when (dive_heap s (dive_table s ! i)) \<le> w")
    case True
    then have step: "first_later s w i = first_later s w (Suc i)"
      by (subst first_later.simps) simp
    show ?thesis
    proof (cases "k = i")
      case True
      with \<open>i < length (dive_table s) \<and> _\<close> show ?thesis by (simp add: table_whens_def)
    next
      case False
      with "1.prems" have "Suc i \<le> k" by simp
      with "1.IH" True "1.prems" step show ?thesis by simp
    qed
  next
    case False
    then have "first_later s w i = i" by (subst first_later.simps) auto
    with "1.prems" show ?thesis by simp
  qed
qed

lemma first_later_stop:
  "first_later s w i < length (dive_table s) \<Longrightarrow> w < table_whens s ! first_later s w i"
proof (induction s w i rule: first_later.induct)
  case (1 s w i)
  show ?case
  proof (cases "i < length (dive_table s) \<and> dive_when (dive_heap s (dive_table s ! i)) \<le> w")
    case True
    then have step: "first_later s w i = first_later s w (Suc i)"
      by (subst first_later.simps) simp
    with "1.IH" True "1.prems" show ?thesis by simp
  next
    case False
    then have stop: "first_later s w i = i" by (subst first_later.simps) auto
    with False "1.prems" show ?thesis by (auto simp: table_whens_def)
  qed
qed

lemma first_later_mono:
  assumes "w1 \<le> w2"
  shows "first_later s w1 0 \<le> first_later s w2 0"
proof (rule ccontr)
  assume "\<not> ?thesis"
  then have lt: "first_later s w2 0 < first_later s w1 0" by simp
  from first_later_passed [OF _ lt] have a: "table_whens s ! first_later s w2 0 \<le> w1"
    and b: "first_later s w2 0 < length (dive_table s)" by simp_all
  from first_later_stop [OF b] have "w2 < table_whens s ! first_later s w2 0" .
  with a assms show False by simp
qed

lemma closest_index_mono:
  assumes "w1 \<le> w2"
  shows "closest_index s w1 \<le> closest_index s w2"
proof -
  define nr where "nr = length (dive_table s)"
  define i1 where "i1 = first_later s w1 0"
  define i2 where "i2 = first_later s w2 0"
  have le: "i1 \<le> i2" unfolding i1_def i2_def by (rule first_later_mono [OF assms])
  have b1: "i1 \<le> nr" and b2: "i2 \<le> nr"
    using first_later_bounds [of 0 s] by (simp_all add: i1_def i2_def nr_def)
  show ?thesis
  proof (cases "i1 = i2")
    case True
    with assms show ?thesis
      by (auto simp: closest_index_def Let_def i1_def i2_def)
  next
    case False
    with le have lt: "i1 < i2" by simp
    have "closest_index s w1 \<le> i1"
      by (auto simp: closest_index_def Let_def i1_def)
    moreover have "i2 - 1 \<le> closest_index s w2 \<or> nr = 1"
      by (auto simp: closest_index_def Let_def i2_def nr_def)
    moreover have "nr = 1 \<Longrightarrow> closest_index s w1 \<le> closest_index s w2"
      by (simp add: closest_index_def Let_def nr_def)
    ultimately show ?thesis using lt by auto
  qed
qed

lemma closest_index_less:
  "dive_table s \<noteq> [] \<Longrightarrow> closest_index s w < length (dive_table s)"
  using first_later_bounds [of 0 s w]
  by (auto simp: closest_index_def Let_def)

lemma get_dive_id_closest_to_index:
  "dive_table s \<noteq> [] \<Longrightarrow> get_dive_id_closest_to s w = table_ids s ! closest_index s w"
  using first_later_bounds [of 0 s w]
  by (auto simp: get_dive_id_closest_to_def closest_index_def table_ids_def Let_def)

text \<open>
  Claim C7, as amended. Over a fixed table, the table position of the dive that
  \<open>get_dive_id_closest_to\<close> picks never moves down as the timestamp grows
  (\<open>closest_index_mono\<close>); the returned id is therefore non-decreasing in the
  timestamp when the ids are non-decreasing along the table.
\<close>

theorem get_dive_id_closest_to_mono:
  assumes "sorted (table_ids s)" and "w1 \<le> w2"
  shows "get_dive_id_closest_to s w1 \<le> get_dive_id_closest_to s w2"
proof (cases "dive_table s = []")
  case True
  then show ?thesis by (simp add: get_dive_id_closest_to_def)
next
  case False
  have "closest_index s w1 \<le> closest_index s w2" by (rule closest_index_mono [OF assms(2)])
  moreover have "closest_index s w2 < length (table_ids s)"
    using closest_index_less [OF False] by (simp add: table_ids_def)
  ultimately have "table_ids s ! closest_index s w1 \<le> table_ids s ! closest_index s w2"
    using assms(1) by (simp add: sorted_nth_mono)
  with False show ?thesis by (simp add: get_dive_id_closest_to_index)
qed

text \<open>
  Claim C10. \<open>get_dive_id_closest_to\<close> returns 0 for every timestamp when the global
  dive table is empty, the id of the only dive when the table holds exactly one, and,
  in a table sorted by start time, the id of the later of two neighbouring dives when
  the timestamp is equally far from both.
\<close>

theorem get_dive_id_closest_to_edge_cases:
  "(dive_table s = [] \<longrightarrow> get_dive_id_closest_to s w = 0) \<and>
   (\<forall>d. dive_table s = [d] \<longrightarrow> get_dive_id_closest_to s w = dive_id (dive_heap s d)) \<and>
   (\<forall>j. sorted (table_whens s) \<and> Suc j < length (dive_table s) \<and>
        table_whens s ! j < table_whens s ! Suc j \<and>
        w - table_whens s ! j = table_whens s ! Suc j - w \<longrightarrow>
        get_dive_id_closest_to s w = table_ids s ! Suc j)"
proof (intro conjI allI impI)
  show "get_dive_id_closest_to s w = 0" if "dive_table s = []"
    using that by (simp add: get_dive_id_closest_to_def)
  show "get_dive_id_closest_to s w = dive_id (dive_heap s d)" if "dive_table s = [d]" for d
    using that by (simp add: get_dive_id_closest_to_def)
  fix j
  assume h: "sorted (table_whens s) \<and> Suc j < length (dive_table s) \<and>
        table_whens s ! j < table_whens s ! Suc j \<and>
        w - table_whens s ! j = table_whens s ! Suc j - w"
  then have srt: "sorted (table_whens s)" and len: "Suc j < length (dive_table s)"
    and lo: "table_whens s ! j < w" and hi: "w < table_whens s ! Suc j"
    and tie: "w - table_whens s ! j = table_whens s ! Suc j - w" by auto
  have len': "length (table_whens s) = length (dive_table s)" by (simp add: table_whens_def)
  define i where "i = first_later s w 0"
  have "i = Suc j"
  proof (rule ccontr)
    assume ne: "i \<noteq> Suc j"
    show False
    proof (cases "i < Suc j")
      case True
      then have ilen: "i < length (dive_table s)" using len by simp
      from first_later_stop [of s w 0] ilen have "w < table_whens s ! i" by (simp add: i_def)
      moreover have "table_whens s ! i \<le> table_whens s ! j"
        using srt True len len' by (simp add: sorted_nth_mono)
      ultimately show False using lo by simp
    next
      case False
      with ne have "Suc j < i" by simp
      from first_later_passed [of 0 "Suc j" s w] this have "table_whens s ! Suc j \<le> w"
        by (simp add: i_def)
      with hi show False by simp
    qed
  qed
  with len tie show "get_dive_id_closest_to s w = table_ids s ! Suc j"
    by (auto simp: get_dive_id_closest_to_def Let_def i_def table_ids_def table_whens_def)
qed

theorem get_dive_id_closest_to_mono_witness:
  "sorted (table_ids three_dives) \<and> (1400::int) \<le> 1600 \<and>
   get_dive_id_closest_to three_dives 1400 = 1 \<and>
   get_dive_id_closest_to three_dives 1600 = 2 \<and>
   get_dive_id_closest_to three_dives 1400 \<le> get_dive_id_closest_to three_dives 1600"
  using get_dive_id_closest_to_mono [of three_dives 1400 1600]
  by (simp add: example_defs get_dive_id_closest_to_def first_later.simps Let_def)

text \<open>
  The claim as stated fails on a table sorted by \<open>comp_dives\<close> whose earlier dive has
  the larger id: the id returned for timestamp 100 is 2, for 200 it is 1.
\<close>

theorem get_dive_id_closest_to_mono_counterexample:
  "dive_table_sorted ids_out_of_order (dive_table ids_out_of_order) \<and>
   get_dive_id_closest_to ids_out_of_order 100 = 2 \<and>
   get_dive_id_closest_to ids_out_of_order 200 = 1 \<and>
   \<not> (get_dive_id_closest_to ids_out_of_order 100 \<le> get_dive_id_closest_to ids_out_of_order 200)"
  by (simp add: example_defs get_dive_id_closest_to_def first_later.simps Let_def
      dive_table_sorted_def comp_dives_def)

theorem get_dive_id_closest_to_edge_cases_witness:
  "get_dive_id_closest_to empty_divelist 5 = 0 \<and>
   get_dive_id_closest_to (three_dives\<lparr>dive_table := [2]\<rparr>) 5 = 2 \<and>
   1500 - table_whens three_dives ! 0 = table_whens three_dives ! Suc 0 - 1500 \<and>
   get_dive_id_closest_to three_dives 1500 = 2"
proof -
  note e1 = get_dive_id_closest_to_edge_cases [of empty_divelist 5, THEN conjunct1]
  note e2 = get_dive_id_closest_to_edge_cases [of "three_dives\<lparr>dive_table := [2]\<rparr>" 5,
      THEN conjunct2, THEN conjunct1, THEN spec, of 2]
  note e3 = get_dive_id_closest_to_edge_cases [of three_dives 1500,
      THEN conjunct2, THEN conjunct2, THEN spec, of 0]
  have "get_dive_id_closest_to empty_divelist 5 = 0"
    using e1 by (simp add: example_defs)
  moreover have "get_dive_id_closest_to (three_dives\<lparr>dive_table := [2]\<rparr>) 5 = 2"
    using e2 by (simp add: example_defs)
  moreover have "get_dive_id_closest_to three_dives 1500 = 2"
    using e3 by (simp add: example_defs)
  ultimately show ?thesis by (simp add: example_defs)
qed

lemma last_earlier_facts:
  "- 1 \<le> i \<Longrightarrow> i < int (length (dive_table s)) \<Longrightarrow>
     - 1 \<le> last_earlier s w i \<and> last_earlier s w i \<le> i \<and>
     (0 \<le> last_earlier s w i \<longrightarrow> table_whens s ! nat (last_earlier s w i) < w) \<and>
     (\<forall>k. last_earlier s w i < int k \<and> int k \<le> i \<longrightarrow> \<not> table_whens s ! k < w)"
proof (induction s w i rule: last_earlier.induct)
  case (1 s w i)
  show ?case
  proof (cases "0 \<le> i")
    case False
    then have "last_earlier s w i = i" by (subst last_earlier.simps) simp
    with False "1.prems" show ?thesis by auto
  next
    case True
    show ?thesis
    proof (cases "dive_when (dive_heap s (dive_table s ! nat i)) < w")
      case hit: True
      with True have "last_earlier s w i = i" by (subst last_earlier.simps) simp
      with True hit "1.prems" show ?thesis by (auto simp: table_whens_def)
    next
      case miss: False
      with True have step: "last_earlier s w i = last_earlier s w (i - 1)"
        by (subst last_earlier.simps) simp
      from True "1.prems" have "- 1 \<le> i - 1" "i - 1 < int (length (dive_table s))" by simp_all
      from "1.IH" [OF True miss this] have
        ih: "- 1 \<le> last_earlier s w (i - 1)" "last_earlier s w (i - 1) \<le> i - 1"
          "0 \<le> last_earlier s w (i - 1) \<longrightarrow> table_whens s ! nat (last_earlier s w (i - 1)) < w"
          "\<forall>k. last_earlier s w (i - 1) < int k \<and> int k \<le> i - 1 \<longrightarrow> \<not> table_whens s ! k < w"
        by simp_all
      have "\<not> table_whens s ! k < w" if "last_earlier s w (i - 1) < int k" "int k \<le> i" for k
      proof (cases "int k = i")
        case True
        then have "k = nat i" by simp
        with miss \<open>0 \<le> i\<close> "1.prems" show ?thesis by (simp add: table_whens_def)
      next
        case False
        with that ih(4) show ?thesis by simp
      qed
      with ih step show ?thesis by auto
    qed
  qed
qed

lemma latest_before_unique: "latest_before s w i \<Longrightarrow> latest_before s w j \<Longrightarrow> i = j"
  by (meson latest_before_def le_antisym order_antisym)

text \<open>
  Claim C6. Over a global dive table sorted by start time, for every timestamp \<open>w\<close>:
  \<open>get_surface_interval w\<close> is \<open>-1\<close> when no dive starts strictly before \<open>w\<close>;
  otherwise there is a latest dive starting strictly before \<open>w\<close>, and the result is
  0 when that dive's end time exceeds \<open>w\<close> and \<open>w\<close> minus its end time otherwise.
  The end time is whatever \<open>dive_endtime\<close> gives.
\<close>

theorem get_surface_interval_cases:
  assumes "sorted (table_whens s)"
  shows "((\<forall>d \<in> set (dive_table s). \<not> dive_when (dive_heap s d) < w) \<longrightarrow>
            get_surface_interval dive_endtime s w = - 1) \<and>
         ((\<exists>d \<in> set (dive_table s). dive_when (dive_heap s d) < w) \<longrightarrow>
            (\<exists>i. latest_before s w i)) \<and>
         (\<forall>i. latest_before s w i \<longrightarrow>
            get_surface_interval dive_endtime s w =
              (if dive_endtime (dive_heap s (dive_table s ! i)) > w then 0
               else w - dive_endtime (dive_heap s (dive_table s ! i))))"
proof -
  define n where "n = length (dive_table s)"
  define r where "r = last_earlier s w (int n - 1)"
  have len: "length (table_whens s) = n" by (simp add: table_whens_def n_def)
  from last_earlier_facts [of "int n - 1" s w]
  have r_lo: "- 1 \<le> r" and r_hi: "r \<le> int n - 1"
    and r_hit: "0 \<le> r \<longrightarrow> table_whens s ! nat r < w"
    and r_after: "\<forall>k. r < int k \<and> int k \<le> int n - 1 \<longrightarrow> \<not> table_whens s ! k < w"
    by (simp_all add: r_def n_def)
  have none: "r < 0" if "\<forall>d \<in> set (dive_table s). \<not> dive_when (dive_heap s d) < w"
  proof (rule ccontr)
    assume "\<not> r < 0"
    then have "0 \<le> r" by simp
    with r_hit r_hi have "table_whens s ! nat r < w" "nat r < n" by auto
    with that show False by (auto simp: table_whens_def n_def)
  qed
  have found: "0 \<le> r \<and> latest_before s w (nat r)"
    if "\<exists>d \<in> set (dive_table s). dive_when (dive_heap s d) < w"
  proof -
    from that obtain k where k: "k < n" "table_whens s ! k < w"
      by (auto simp: in_set_conv_nth table_whens_def n_def)
    have "0 \<le> r"
    proof (rule ccontr)
      assume "\<not> 0 \<le> r"
      with r_after k show False by auto
    qed
    moreover have "latest_before s w (nat r)"
      unfolding latest_before_def
    proof (intro conjI allI impI)
      show "nat r < length (dive_table s)" using r_hi \<open>0 \<le> r\<close> by (simp add: n_def)
      show "table_whens s ! nat r < w" using r_hit \<open>0 \<le> r\<close> by simp
      fix j assume j: "j < length (dive_table s)" "table_whens s ! j < w"
      have "j \<le> nat r"
      proof (rule ccontr)
        assume "\<not> j \<le> nat r"
        then have "r < int j" by simp
        with r_after j show False by (simp add: n_def)
      qed
      then show "table_whens s ! j \<le> table_whens s ! nat r"
        using assms r_hi \<open>0 \<le> r\<close> len by (simp add: sorted_nth_mono)
      show "j \<le> nat r" by fact
    qed
    ultimately show ?thesis by simp
  qed
  have result: "get_surface_interval dive_endtime s w =
              (if dive_endtime (dive_heap s (dive_table s ! i)) > w then 0
               else w - dive_endtime (dive_heap s (dive_table s ! i)))"
    if lb: "latest_before s w i" for i
  proof -
    from lb have "\<exists>d \<in> set (dive_table s). dive_when (dive_heap s d) < w"
      by (auto simp: latest_before_def table_whens_def)
    from found [OF this] have "0 \<le> r" "latest_before s w (nat r)" by simp_all
    with lb have "nat r = i" by (simp add: latest_before_unique)
    with \<open>0 \<le> r\<close> show ?thesis
      by (simp add: get_surface_interval_def Let_def r_def [symmetric] n_def [symmetric])
  qed
  show ?thesis
  proof (intro conjI allI impI)
    show "get_surface_interval dive_endtime s w = - 1"
      if "\<forall>d \<in> set (dive_table s). \<not> dive_when (dive_heap s d) < w"
      using none [OF that]
      by (simp add: get_surface_interval_def Let_def r_def [symmetric] n_def [symmetric])
    show "\<exists>i. latest_before s w i" if "\<exists>d \<in> set (dive_table s). dive_when (dive_heap s d) < w"
      using found [OF that] by blast
    show "get_surface_interval dive_endtime s w =
              (if dive_endtime (dive_heap s (dive_table s ! i)) > w then 0
               else w - dive_endtime (dive_heap s (dive_table s ! i)))"
      if "latest_before s w i" for i
      using result [OF that] .
  qed
qed

theorem get_surface_interval_cases_witness:
  "sorted (table_whens three_dives) \<and>
   get_surface_interval when_plus_duration three_dives 500 = - 1 \<and>
   latest_before three_dives 2300 1 \<and>
   get_surface_interval when_plus_duration three_dives 2300 = 0 \<and>
   latest_before three_dives 2900 1 \<and>
   get_surface_interval when_plus_duration three_dives 2900 = 300"
proof -
  have srt: "sorted (table_whens three_dives)" by (simp add: example_defs)
  have lb: "latest_before three_dives 2300 1" "latest_before three_dives 2900 1"
    by (simp_all add: latest_before_def example_defs less_Suc_eq all_conj_distrib)
  note c = get_surface_interval_cases [OF srt, of _ when_plus_duration]
  have "get_surface_interval when_plus_duration three_dives 500 = - 1"
    using c [of 500, THEN conjunct1] by (simp add: example_defs)
  moreover have "get_surface_interval when_plus_duration three_dives 2300 = 0"
    using c [of 2300, THEN conjunct2, THEN conjunct2, THEN spec, of 1] lb(1)
    by (simp add: example_defs when_plus_duration_def)
  moreover have "get_surface_interval when_plus_duration three_dives 2900 = 300"
    using c [of 2900, THEN conjunct2, THEN conjunct2, THEN spec, of 1] lb(2)
    by (simp add: example_defs when_plus_duration_def)
  ultimately show ?thesis using srt lb by simp
qed

section \<open>Autogrouping: facts\<close>

lemmas autogroup_defs = process_loaded_dives_def sort_dive_table_def sort_trip_table_def
  qsort_by_def autogroup_dives_def get_dives_to_autogroup_def create_trip_from_dive_def
  alloc_trip_def add_dive_to_trip_def insert_trip_def add_to_table_def comp_dives_def
  comp_trips_def dive_less_than_def trip_less_than_def copy_string_def empty_string_def
  two_tripless_def autogroup_loop.simps autogroup_scan.simps autogroup_extend.simps
  trip_date_def

lemma autogroup_at_threshold:
  assumes "0 < T"
  shows "dive_table (process_loaded_dives T (two_tripless T)) = [1, 2] \<and>
         trip_table (process_loaded_dives T (two_tripless T)) = [0, 1] \<and>
         divetrip (dive_heap (process_loaded_dives T (two_tripless T)) 1) = Some 0 \<and>
         divetrip (dive_heap (process_loaded_dives T (two_tripless T)) 2) = Some 1 \<and>
         trip_heap (process_loaded_dives T (two_tripless T)) 0 =
           \<lparr>location = None, trip_notes = None, autogen = True, dives = [1]\<rparr> \<and>
         trip_heap (process_loaded_dives T (two_tripless T)) 1 =
           \<lparr>location = None, trip_notes = None, autogen = True, dives = [2]\<rparr>"
  using assms by (simp add: autogroup_defs example_defs Let_def)

lemma autogroup_below_threshold:
  assumes "0 < T"
  shows "dive_table (process_loaded_dives T (two_tripless (T - 1))) = [1, 2] \<and>
         trip_table (process_loaded_dives T (two_tripless (T - 1))) = [0] \<and>
         divetrip (dive_heap (process_loaded_dives T (two_tripless (T - 1))) 1) = Some 0 \<and>
         divetrip (dive_heap (process_loaded_dives T (two_tripless (T - 1))) 2) = Some 0 \<and>
         trip_heap (process_loaded_dives T (two_tripless (T - 1))) 0 =
           \<lparr>location = None, trip_notes = None, autogen = True, dives = [1, 2]\<rparr>"
  using assms by (simp add: autogroup_defs example_defs Let_def)

text \<open>
  Claim C2, as amended. With autogroup enabled, an otherwise empty divelist, a
  positive \<open>TRIP_THRESHOLD\<close> and two trip-less dives A (\<open>when = 1000\<close>) and B:
  if B starts at \<open>1000 + TRIP_THRESHOLD\<close>, \<open>process_loaded_dives\<close> puts each dive
  into an autogen trip of its own and the trip table has size 2; if B starts at
  \<open>1000 + TRIP_THRESHOLD - 1\<close>, both dives end up in one autogen trip and the trip
  table has size 1.
\<close>

theorem autogroup_boundary:
  assumes "0 < T"
  shows "length (trip_table (process_loaded_dives T (two_tripless T))) = 2 \<and>
         (\<exists>ta tb. ta \<noteq> tb \<and>
            divetrip (dive_heap (process_loaded_dives T (two_tripless T)) 1) = Some ta \<and>
            divetrip (dive_heap (process_loaded_dives T (two_tripless T)) 2) = Some tb \<and>
            trip_table (process_loaded_dives T (two_tripless T)) = [ta, tb] \<and>
            autogen (trip_heap (process_loaded_dives T (two_tripless T)) ta) \<and>
            autogen (trip_heap (process_loaded_dives T (two_tripless T)) tb) \<and>
            dives (trip_heap (process_loaded_dives T (two_tripless T)) ta) = [1] \<and>
            dives (trip_heap (process_loaded_dives T (two_tripless T)) tb) = [2]) \<and>
         length (trip_table (process_loaded_dives T (two_tripless (T - 1)))) = 1 \<and>
         (\<exists>t. divetrip (dive_heap (process_loaded_dives T (two_tripless (T - 1))) 1) = Some t \<and>
            divetrip (dive_heap (process_loaded_dives T (two_tripless (T - 1))) 2) = Some t \<and>
            trip_table (process_loaded_dives T (two_tripless (T - 1))) = [t] \<and>
            autogen (trip_heap (process_loaded_dives T (two_tripless (T - 1))) t) \<and>
            dives (trip_heap (process_loaded_dives T (two_tripless (T - 1))) t) = [1, 2])"
proof -
  note a = autogroup_at_threshold [OF assms]
  note b = autogroup_below_threshold [OF assms]
  have "\<exists>ta tb. ta \<noteq> tb \<and>
            divetrip (dive_heap (process_loaded_dives T (two_tripless T)) 1) = Some ta \<and>
            divetrip (dive_heap (process_loaded_dives T (two_tripless T)) 2) = Some tb \<and>
            trip_table (process_loaded_dives T (two_tripless T)) = [ta, tb] \<and>
            autogen (trip_heap (process_loaded_dives T (two_tripless T)) ta) \<and>
            autogen (trip_heap (process_loaded_dives T (two_tripless T)) tb) \<and>
            dives (trip_heap (process_loaded_dives T (two_tripless T)) ta) = [1] \<and>
            dives (trip_heap (process_loaded_dives T (two_tripless T)) tb) = [2]"
    using a by (intro exI [of _ 0] exI [of _ 1]) simp
  moreover have "\<exists>t. divetrip (dive_heap (process_loaded_dives T (two_tripless (T - 1))) 1) = Some t \<and>
            divetrip (dive_heap (process_loaded_dives T (two_tripless (T - 1))) 2) = Some t \<and>
            trip_table (process_loaded_dives T (two_tripless (T - 1))) = [t] \<and>
            autogen (trip_heap (process_loaded_dives T (two_tripless (T - 1))) t) \<and>
            dives (trip_heap (process_loaded_dives T (two_tripless (T - 1))) t) = [1, 2]"
    using b by (intro exI [of _ 0]) simp
  ultimately show ?thesis using a b by simp
qed

theorem autogroup_boundary_witness:
  "(0::int) < 259200 \<and>
   length (trip_table (process_loaded_dives 259200 (two_tripless 259200))) = 2 \<and>
   length (trip_table (process_loaded_dives 259200 (two_tripless (259200 - 1)))) = 1"
  using autogroup_boundary [of 259200] by simp

text \<open>
  The claim as stated (at the boundary both dives stay trip-less and the trip table
  stays empty) fails: a lone eligible dive gets a trip of its own. Shown for a
  threshold of three days.
\<close>

theorem autogroup_boundary_counterexample:
  "divetrip (dive_heap (process_loaded_dives 259200 (two_tripless 259200)) 1) = Some 0 \<and>
   divetrip (dive_heap (process_loaded_dives 259200 (two_tripless 259200)) 2) = Some 1 \<and>
   length (trip_table (process_loaded_dives 259200 (two_tripless 259200))) = 2 \<and>
   \<not> (divetrip (dive_heap (process_loaded_dives 259200 (two_tripless 259200)) 1) = None \<and>
      divetrip (dive_heap (process_loaded_dives 259200 (two_tripless 259200)) 2) = None \<and>
      length (trip_table (process_loaded_dives 259200 (two_tripless 259200))) = 0)"
  by (simp add: autogroup_defs example_defs Let_def)

section \<open>Importing dives: facts\<close>

declare merge_imported_loop.simps [simp del] advance_j.simps [simp del]

lemma numbers_kept_refl [simp]: "numbers_kept s s"
  by (simp add: numbers_kept_def)

lemma numbers_kept_trans: "numbers_kept s s1 \<Longrightarrow> numbers_kept s1 s2 \<Longrightarrow> numbers_kept s s2"
  by (auto simp: numbers_kept_def)

lemma numbers_kept_trip_heap [simp]: "numbers_kept s (s'\<lparr>trip_heap := h\<rparr>) = numbers_kept s s'"
  by (simp add: numbers_kept_def)

lemma numbers_kept_next_trip [simp]: "numbers_kept s (s'\<lparr>next_trip := n\<rparr>) = numbers_kept s s'"
  by (simp add: numbers_kept_def)

lemma numbers_kept_divetrip:
  "numbers_kept s s' \<Longrightarrow>
     numbers_kept s (s'\<lparr>dive_heap := (dive_heap s')(d := (dive_heap s' d)\<lparr>divetrip := t\<rparr>)\<rparr>)"
  by (simp add: numbers_kept_def)

lemma numbers_kept_alloc_dive:
  "numbers_kept s s' \<Longrightarrow> numbers_kept s (snd (alloc_dive m s'))"
  by (auto simp: numbers_kept_def alloc_dive_def)

lemma numbers_kept_merge_imported_loop:
  "numbers_kept s0 s \<Longrightarrow> numbers_kept s0 (snd (merge_imported_loop tm et table i s))"
proof (induction tm et table i s rule: merge_imported_loop.induct)
  case (1 tm et table i s)
  show ?case
  proof (cases "0 < i \<and> i < length table")
    case False
    then have "merge_imported_loop tm et table i s = (table, s)"
      by (subst merge_imported_loop.simps) auto
    then show ?thesis using "1.prems" by simp
  next
    case True
    let ?prev = "table ! (i - 1)" and ?dive = "table ! i"
    show ?thesis
    proof (cases "duration (dive_heap s ?prev) \<noteq> 0 \<and> duration (dive_heap s ?dive) \<noteq> 0 \<and>
            et (dive_heap s ?prev) < dive_when (dive_heap s ?dive)")
      case skip: True
      from "1.IH"(1) [OF True refl refl skip "1.prems"] True skip show ?thesis
        by (subst merge_imported_loop.simps) (auto simp: Let_def)
    next
      case attempt: False
      show ?thesis
      proof (cases "tm (dive_heap s ?prev) (dive_heap s ?dive) False")
        case None
        from "1.IH"(2) [OF True refl refl attempt None "1.prems"] True attempt None show ?thesis
          by (subst merge_imported_loop.simps) (auto simp: Let_def)
      next
        case (Some m)
        obtain merged s1 where a: "alloc_dive m s = (merged, s1)" by (cases "alloc_dive m s")
        then have k: "numbers_kept s0 s1"
          using numbers_kept_alloc_dive [OF "1.prems", of m] by simp
        from "1.IH"(3) [OF True refl refl attempt Some refl a [symmetric] refl k] True attempt Some a
        show ?thesis
          by (subst merge_imported_loop.simps) (auto simp: Let_def)
      qed
    qed
  qed
qed

lemma numbers_kept_create_trip:
  "numbers_kept s0 s \<Longrightarrow> numbers_kept s0 (snd (create_trip_from_dive d s))"
  by (simp add: create_trip_from_dive_def alloc_trip_def Let_def)

lemma numbers_kept_add_dive_to_trip:
  "numbers_kept s0 s \<Longrightarrow> numbers_kept s0 (add_dive_to_trip d trip s)"
  by (simp add: add_dive_to_trip_def Let_def numbers_kept_def)

lemma numbers_kept_add_dives_to_trip:
  "numbers_kept s0 s \<Longrightarrow> numbers_kept s0 (add_dives_to_trip ds trip s)"
  by (induction ds arbitrary: s) (simp_all add: numbers_kept_add_dive_to_trip)

lemma numbers_kept_autogroup_extend:
  "numbers_kept s0 s \<Longrightarrow>
     numbers_kept s0 (snd (autogroup_extend threshold s table trip to lastdive))"
proof (induction threshold s table trip to lastdive rule: autogroup_extend.induct)
  case (1 threshold s table trip to lastdive)
  let ?dive = "table ! to"
  let ?stop = "divetrip (dive_heap s ?dive) \<noteq> None \<or> notrip (dive_heap s ?dive) \<or>
            dive_when (dive_heap s ?dive) \<ge> dive_when (dive_heap s lastdive) + threshold"
  let ?s1 = "if dive_location (dive_heap s ?dive) \<noteq> None \<and> location (trip_heap s trip) = None
             then s\<lparr>trip_heap := (trip_heap s)(trip := (trip_heap s trip)
                    \<lparr>location := copy_string (dive_location (dive_heap s ?dive))\<rparr>)\<rparr>
             else s"
  show ?case
  proof (cases "to < length table \<and> \<not> ?stop")
    case False
    then have "autogroup_extend threshold s table trip to lastdive = (to, s)"
      by (subst autogroup_extend.simps) (auto simp: Let_def)
    with "1.prems" show ?thesis by simp
  next
    case True
    then have step: "autogroup_extend threshold s table trip to lastdive =
        autogroup_extend threshold ?s1 table trip (Suc to) ?dive"
      by (subst autogroup_extend.simps) (simp add: Let_def)
    have "numbers_kept s0 ?s1" using "1.prems" by simp
    from "1.IH" [OF _ refl _ refl this] True show ?thesis
      unfolding step by simp
  qed
qed

lemma numbers_kept_autogroup_scan:
  "numbers_kept s0 s \<Longrightarrow>
     numbers_kept s0 (snd (autogroup_scan threshold s table i lastdive))"
proof (induction threshold s table i lastdive rule: autogroup_scan.induct)
  case (1 threshold s table i lastdive)
  let ?dive = "table ! i"
  show ?case
  proof (cases "i < length table")
    case False
    then have "autogroup_scan threshold s table i lastdive = (None, s)"
      by (subst autogroup_scan.simps) simp
    with "1.prems" show ?thesis by simp
  next
    case i: True
    show ?thesis
    proof (cases "divetrip (dive_heap s ?dive) \<noteq> None")
      case True
      with i have "autogroup_scan threshold s table i lastdive =
          autogroup_scan threshold s table (Suc i) (Some ?dive)"
        by (subst autogroup_scan.simps) (simp add: Let_def)
      with "1.IH"(1) [OF i refl True "1.prems"] show ?thesis by simp
    next
      case no_trip: False
      show ?thesis
      proof (cases "notrip (dive_heap s ?dive)")
        case True
        with i no_trip have "autogroup_scan threshold s table i lastdive =
            autogroup_scan threshold s table (Suc i) None"
          by (subst autogroup_scan.simps) (simp add: Let_def)
        with "1.IH"(2) [OF i refl no_trip True "1.prems"] show ?thesis by simp
      next
        case False
        define fresh where "fresh = (case lastdive of
                           None \<Rightarrow> True
                         | Some l \<Rightarrow> dive_when (dive_heap s ?dive) \<ge>
                                      dive_when (dive_heap s l) + threshold)"
        show ?thesis
        proof (cases fresh)
          case True
          obtain trip s' where c: "create_trip_from_dive ?dive s = (trip, s')"
            by (cases "create_trip_from_dive ?dive s")
          define s1 where "s1 = s'\<lparr>trip_heap := (trip_heap s')(trip := (trip_heap s' trip)
                            \<lparr>autogen := True\<rparr>)\<rparr>"
          have "numbers_kept s0 s'"
            using numbers_kept_create_trip [OF "1.prems", of ?dive] c by simp
          then have k1: "numbers_kept s0 s1" by (simp add: s1_def)
          have "snd (autogroup_scan threshold s table i lastdive) =
              snd (autogroup_extend threshold s1 table trip (Suc i) ?dive)"
            using i no_trip False True c
            by (subst autogroup_scan.simps)
               (simp add: Let_def fresh_def s1_def [symmetric] split: prod.splits)
          with numbers_kept_autogroup_extend [OF k1] show ?thesis by simp
        next
          case stale: False
          then obtain l where l: "lastdive = Some l" by (cases lastdive) (simp_all add: fresh_def)
          show ?thesis
          proof (cases "divetrip (dive_heap s l)")
            case None
            have "snd (autogroup_scan threshold s table i lastdive) = s"
              using i no_trip False stale l None
              by (subst autogroup_scan.simps)
                 (simp add: Let_def fresh_def split: prod.splits)
            with "1.prems" show ?thesis by simp
          next
            case (Some trip)
            have "snd (autogroup_scan threshold s table i lastdive) =
                snd (autogroup_extend threshold s table trip (Suc i) ?dive)"
              using i no_trip False stale l Some
              by (subst autogroup_scan.simps)
                 (simp add: Let_def fresh_def split: prod.splits)
            with numbers_kept_autogroup_extend [OF "1.prems"] show ?thesis by simp
          qed
        qed
      qed
    qed
  qed
qed

lemma numbers_kept_autogroup_loop:
  "numbers_kept s0 s \<Longrightarrow>
     numbers_kept s0 (snd (autogroup_loop threshold table i trips s))"
proof (induction threshold table i trips s rule: autogroup_loop.induct)
  case (1 threshold table i trips s)
  obtain r s1 where g: "get_dives_to_autogroup threshold s table i = (r, s1)"
    by (cases "get_dives_to_autogroup threshold s table i")
  have k1: "numbers_kept s0 s1"
    using numbers_kept_autogroup_scan [OF "1.prems", of threshold table i None] g
    by (simp add: get_dives_to_autogroup_def)
  show ?case
  proof (cases r)
    case None
    with g k1 show ?thesis by (subst autogroup_loop.simps) simp
  next
    case (Some q)
    obtain trip "from" to alloc where q: "q = (trip, from, to, alloc)" by (cases q) auto
    define s2 where "s2 = add_dives_to_trip (take (to - from) (drop from table)) trip s1"
    define trips2 where "trips2 = (if alloc then insert_trip s2 trip trips else trips)"
    have k2: "numbers_kept s0 s2"
      unfolding s2_def by (rule numbers_kept_add_dives_to_trip [OF k1])
    have step: "autogroup_loop threshold table i trips s =
        autogroup_loop threshold table to trips2 s2"
      using g Some q by (subst autogroup_loop.simps) (simp add: Let_def s2_def trips2_def)
    from "1.IH" [OF g [symmetric] Some _ _ _ s2_def trips2_def k2, of "(from, to, alloc)" "(to, alloc)"] q
    show ?thesis unfolding step by simp
  qed
qed

lemma numbers_kept_autogroup_dives:
  "numbers_kept s0 s \<Longrightarrow> numbers_kept s0 (snd (autogroup_dives threshold table trips s))"
  using numbers_kept_autogroup_loop [of s0 s threshold table 0 trips]
  by (auto simp: autogroup_dives_def Let_def split: prod.splits)

lemma numbers_kept_try_to_merge_into:
  "numbers_kept s0 s \<Longrightarrow>
     try_to_merge_into tm d idx table prefer to_add to_remove s = Some (a, r, s') \<Longrightarrow>
     numbers_kept s0 s'"
  by (auto simp: try_to_merge_into_def alloc_dive_def Let_def numbers_kept_def
      split: option.splits)

lemma numbers_kept_merge_step:
  assumes "numbers_kept s0 (ms_store ms)"
  shows "numbers_kept s0 (ms_store (merge_step tm et dives_to prefer trip d ms))"
proof -
  define s where "s = ms_store ms"
  define j where "j = advance_j s dives_to d (ms_j ms)"
  define into_prev where "into_prev =
            (if j > 0 \<and> int j - 1 > ms_last_merged_into ms \<and>
                et (dive_heap s (dives_to ! (j - 1))) > dive_when (dive_heap s d)
             then try_to_merge_into tm d (j - 1) dives_to prefer
                    (ms_to_add ms) (ms_to_remove ms) s
             else None)"
  define into_next where "into_next =
                    (if j < length dives_to \<and> int j > ms_last_merged_into ms \<and>
                        et (dive_heap s d) > dive_when (dive_heap s (dives_to ! j))
                     then try_to_merge_into tm d j dives_to prefer
                            (ms_to_add ms) (ms_to_remove ms) s
                     else None)"
  have k: "numbers_kept s0 s" using assms by (simp add: s_def)
  have prev: "numbers_kept s0 s'" if "into_prev = Some (a, r, s')" for a r s'
    using that numbers_kept_try_to_merge_into [OF k]
    by (auto simp: into_prev_def split: if_splits)
  have nxt: "numbers_kept s0 s'" if "into_next = Some (a, r, s')" for a r s'
    using that numbers_kept_try_to_merge_into [OF k]
    by (auto simp: into_next_def split: if_splits)
  have last: "numbers_kept s0 (s\<lparr>dive_heap := (dive_heap s)(d := (dive_heap s d)\<lparr>divetrip := trip\<rparr>)\<rparr>)"
    by (rule numbers_kept_divetrip [OF k])
  show ?thesis
    unfolding merge_step_def Let_def s_def [symmetric] j_def [symmetric]
      into_prev_def [symmetric] into_next_def [symmetric]
    using prev nxt last by (auto split: option.splits)
qed

lemma numbers_kept_merge_dive_loop:
  "numbers_kept s0 (ms_store ms) \<Longrightarrow>
     numbers_kept s0 (ms_store (merge_dive_loop tm et dives_to prefer trip ds ms))"
  by (induction ds arbitrary: ms) (simp_all add: numbers_kept_merge_step)

lemma numbers_kept_merge_dive_tables:
  "numbers_kept s0 s \<Longrightarrow>
     numbers_kept s0 (ms_store (merge_dive_tables tm et dives_from delete_from dives_to prefer
        trip to_add to_remove num_merged s))"
  by (simp add: merge_dive_tables_def numbers_kept_merge_dive_loop)

lemma numbers_kept_try_to_merge_trip:
  "numbers_kept s0 (plan_state pl) \<Longrightarrow> try_to_merge_trip tm et trip prefer pl = Some pl' \<Longrightarrow>
     numbers_kept s0 (plan_state pl')"
  by (auto simp: try_to_merge_trip_def Let_def numbers_kept_merge_dive_tables
      split: option.splits)

lemma plan_state_add_trip_dives [simp]: "plan_state (add_trip_dives ds pl) = plan_state pl"
  by (induction ds arbitrary: pl) simp_all

lemma numbers_kept_import_trips_loop:
  assumes "import_trips_loop tm et flags i pl = Some pl'"
  shows "numbers_kept s0 (plan_state pl) \<longrightarrow> numbers_kept s0 (plan_state pl')"
proof (rule import_trips_loop.raw_induct [where P = "\<lambda>tm et flags i pl pl'.
    numbers_kept s0 (plan_state pl) \<longrightarrow> numbers_kept s0 (plan_state pl')", OF _ assms], goal_cases)
  case (1 loop tm et flags i pl y)
  show ?case
  proof
    assume k: "numbers_kept s0 (plan_state pl)"
    show "numbers_kept s0 (plan_state y)"
    proof (cases "i < length (import_trip_table pl)")
      case False
      with "1"(2) have "y = pl" by simp
      with k show ?thesis by simp
    next
      case True
      define trip_import where "trip_import = import_trip_table pl ! i"
      define merged where "merged =
        (if merge_all_trips flags \<or> autogen (trip_heap (plan_state pl) trip_import)
         then try_to_merge_trip tm et trip_import (prefer_imported flags) pl else None)"
      show ?thesis
      proof (cases merged)
        case (Some pl1)
        with True "1"(2) have run: "loop tm et flags (Suc i) pl1 = Some y"
          by (simp add: Let_def trip_import_def [symmetric] merged_def [symmetric])
        from Some have "try_to_merge_trip tm et trip_import (prefer_imported flags) pl = Some pl1"
          by (simp add: merged_def split: if_splits)
        from numbers_kept_try_to_merge_trip [OF k this] have "numbers_kept s0 (plan_state pl1)" .
        with "1"(1) [OF run] show ?thesis by simp
      next
        case None
        define ds where "ds = dives (trip_heap (plan_state pl) trip_import)"
        define pl3 where "pl3 = (add_trip_dives ds pl)
            \<lparr>trips_to_add := insert_trip (plan_state pl) trip_import
                               (trips_to_add (add_trip_dives ds pl)),
             plan_state := (plan_state pl)\<lparr>trip_heap := (trip_heap (plan_state pl))
                 (trip_import := (trip_heap (plan_state pl) trip_import)\<lparr>dives := []\<rparr>)\<rparr>\<rparr>"
        from None True "1"(2) have run: "loop tm et flags (Suc (length ds)) pl3 = Some y"
          by (simp add: Let_def trip_import_def [symmetric] merged_def [symmetric]
              ds_def [symmetric] pl3_def)
        have "numbers_kept s0 (plan_state pl3)" using k by (simp add: pl3_def)
        with "1"(1) [OF run] show ?thesis by simp
      qed
    qed
  qed
qed

lemma numbers_kept_add_to_new_trip_dives:
  "numbers_kept s0 (plan_state pl) \<Longrightarrow>
     numbers_kept s0 (plan_state (add_to_new_trip_dives new_trip ds pl))"
  by (induction ds arbitrary: pl) (simp_all add: Let_def numbers_kept_divetrip)

lemma numbers_kept_create_trip_eq:
  "numbers_kept s0 s \<Longrightarrow> create_trip_from_dive d s = (t, s') \<Longrightarrow> numbers_kept s0 s'"
  using numbers_kept_create_trip [of s0 s d] by simp

lemma numbers_kept_import_remaining_dives:
  assumes "numbers_kept s0 (plan_state pl)"
  shows "numbers_kept s0 (plan_state (import_remaining_dives tm et flags pl))"
proof (cases "add_to_new_trip flags \<and> length (import_table pl) > 0")
  case True
  obtain new_trip s1 where c: "create_trip_from_dive (import_table pl ! 0) (plan_state pl) = (new_trip, s1)"
    by (cases "create_trip_from_dive (import_table pl ! 0) (plan_state pl)")
  from numbers_kept_create_trip_eq [OF assms c] have "numbers_kept s0 s1" .
  then have "numbers_kept s0 (plan_state (add_to_new_trip_dives new_trip (import_table pl)
      (pl\<lparr>plan_state := s1, trips_to_add := insert_trip s1 new_trip (trips_to_add pl)\<rparr>)))"
    by (intro numbers_kept_add_to_new_trip_dives) simp
  with True c show ?thesis by (simp add: import_remaining_dives_def Let_def)
next
  case False
  with assms show ?thesis
    by (auto simp: import_remaining_dives_def Let_def numbers_kept_merge_dive_tables)
qed

lemma plan_imported_dives_frame:
  assumes "plan_imported_dives tm et threshold flags imports import_trips s = Some (pl, preexisting)"
  shows "numbers_kept s (plan_state pl) \<and> preexisting = length (dive_table s)"
proof -
  define sorted_imports where "sorted_imports = sort_dive_table s imports"
  obtain merged_imports s1 where m: "merge_imported_dives tm et sorted_imports s = (merged_imports, s1)"
    by (cases "merge_imported_dives tm et sorted_imports s")
  obtain trips1 s2 where a: "(if \<not> add_to_new_trip flags
                          then autogroup_dives threshold merged_imports import_trips s1
                          else (import_trips, s1)) = (trips1, s2)"
    by (cases "if \<not> add_to_new_trip flags
                          then autogroup_dives threshold merged_imports import_trips s1
                          else (import_trips, s1)")
  define pl0 where "pl0 = \<lparr>plan_state = s2, import_table = merged_imports,
                import_trip_table = trips1,
                dives_to_add = [], dives_to_remove = [], trips_to_add = [],
                sequence_changed = False, start_renumbering_at = 0\<rparr>"
  have k1: "numbers_kept s s1"
    using numbers_kept_merge_imported_loop [of s s tm et sorted_imports 1] m
    by (simp add: merge_imported_dives_def)
  have k2: "numbers_kept s s2"
    using a k1 numbers_kept_autogroup_dives [OF k1, of threshold merged_imports import_trips]
    by (auto split: if_splits)
  from assms obtain pl1 where
    run: "import_trips_loop tm et flags 0 pl0 = Some pl1"
    and res: "pl = import_remaining_dives tm et flags (pl1\<lparr>import_trip_table := []\<rparr>)"
    and pre: "preexisting = length (dive_table s2)"
    by (auto simp: plan_imported_dives_def Let_def sorted_imports_def [symmetric] m a
        pl0_def [symmetric] split: option.splits)
  from numbers_kept_import_trips_loop [OF run, of s] k2
  have "numbers_kept s (plan_state pl1)" by (simp add: pl0_def)
  then have "numbers_kept s (plan_state (pl1\<lparr>import_trip_table := []\<rparr>))" by simp
  from numbers_kept_import_remaining_dives [OF this] res
  have "numbers_kept s (plan_state pl)" by simp
  moreover from k2 pre have "preexisting = length (dive_table s)"
    by (simp add: numbers_kept_def)
  ultimately show ?thesis by simp
qed

lemma renumber_from_other:
  "d \<notin> set ds \<Longrightarrow> dive_heap (renumber_from ds nr s) d = dive_heap s d"
  by (induction ds arbitrary: nr s) auto

lemma renumber_from_numbers:
  "distinct ds \<Longrightarrow> k < length ds \<Longrightarrow>
     number (dive_heap (renumber_from ds nr s) (ds ! k)) = nr + 1 + int k"
proof (induction ds arbitrary: nr s k)
  case Nil
  then show ?case by simp
next
  case (Cons d ds)
  show ?case
  proof (cases k)
    case 0
    with Cons.prems show ?thesis by (simp add: renumber_from_other)
  next
    case (Suc k')
    with Cons.prems have "distinct ds" "k' < length ds" by simp_all
    from Cons.IH [OF this] Suc show ?thesis by simp
  qed
qed

lemma renumber_added_fields [simp]:
  "dives_to_add (renumber_added nh pre pl) = dives_to_add pl"
  "start_renumbering_at (renumber_added nh pre pl) = start_renumbering_at pl"
  "sequence_changed (renumber_added nh pre pl) = sequence_changed pl"
  by (simp_all add: renumber_added_def Let_def)

lemma numbers_kept_last_number:
  assumes "numbers_kept s s'" and "\<forall>d \<in> set (dive_table s). d < next_dive s"
  shows "(if length (dive_table s') > 0
          then number (dive_heap s' (dive_table s' ! (length (dive_table s') - 1))) else 0) =
         last_number s"
proof (cases "dive_table s = []")
  case True
  with assms(1) show ?thesis by (simp add: last_number_def numbers_kept_def)
next
  case False
  then have "last (dive_table s) \<in> set (dive_table s)" by simp
  with assms(2) have "last (dive_table s) < next_dive s" by blast
  with assms(1) have "number (dive_heap s' (last (dive_table s))) =
      number (dive_heap s (last (dive_table s)))" by (simp add: numbers_kept_def)
  with False assms(1) show ?thesis
    by (simp add: last_number_def numbers_kept_def last_conv_nth)
qed

text \<open>
  What the renumbering block does when its guard holds. If \<open>process_imported_dives\<close>
  returns a plan whose sequence did not change, no incoming dive carried a number
  \<open>> 0\<close> and the number of the prior last dive of the global dive table is at least
  the number of dives in that table, then the entries of \<open>dives_to_add\<close> from index
  \<open>start_renumbering_at\<close> on carry consecutive numbers starting at that number plus
  one. These are the dives after the merged ones only as far as the merged dives sort
  first in \<open>dives_to_add\<close>, which the code takes for granted.
\<close>

lemma renumbering_when_guard_holds:
  assumes run: "process_imported_dives tm et threshold flags imports import_trips s = Some pl"
    and allocated: "\<forall>d \<in> set (dive_table s). d < next_dive s"
    and unchanged: "\<not> sequence_changed pl"
    and numberless: "\<forall>d \<in> set imports. \<not> number (dive_heap s d) > 0"
    and numbered: "last_number s \<ge> int (length (dive_table s))"
    and once: "distinct (drop (start_renumbering_at pl) (dives_to_add pl))"
  shows "\<forall>k < length (dives_to_add pl) - start_renumbering_at pl.
           number (dive_heap (plan_state pl) (dives_to_add pl ! (start_renumbering_at pl + k))) =
             last_number s + 1 + int k"
proof (cases "length imports = 0")
  case True
  with run have "dives_to_add pl = []" by (auto simp: process_imported_dives_def)
  then show ?thesis by simp
next
  case False
  with run obtain pl0 pre where
    plan: "plan_imported_dives tm et threshold flags imports import_trips s = Some (pl0, pre)"
    and pl: "pl = renumber_added (new_dive_has_number s imports) pre pl0"
    by (auto simp: process_imported_dives_def split: option.splits)
  from plan_imported_dives_frame [OF plan]
  have kept: "numbers_kept s (plan_state pl0)" and pre: "pre = length (dive_table s)" by simp_all
  note nr = numbers_kept_last_number [OF kept allocated]
  have nh: "\<not> new_dive_has_number s imports"
    using numberless by (simp add: new_dive_has_number_def)
  have seq0: "\<not> sequence_changed pl0" using unchanged pl by simp
  define ds where "ds = drop (start_renumbering_at pl0) (dives_to_add pl0)"
  have "renumber_added (new_dive_has_number s imports) pre pl0 =
      pl0\<lparr>plan_state := renumber_from ds (last_number s) (plan_state pl0)\<rparr>"
    unfolding renumber_added_def Let_def nr
    using seq0 nh numbered by (simp add: pre ds_def)
  then have state: "plan_state pl = renumber_from ds (last_number s) (plan_state pl0)"
    by (simp add: pl)
  have dist: "distinct ds" using once by (simp add: pl ds_def)
  show ?thesis
  proof (intro allI impI)
    fix k assume "k < length (dives_to_add pl) - start_renumbering_at pl"
    then have k: "k < length ds" by (simp add: pl ds_def)
    then have "ds ! k = dives_to_add pl ! (start_renumbering_at pl + k)"
      by (simp add: pl ds_def)
    with renumber_from_numbers [OF dist k, of "last_number s" "plan_state pl0"]
    show "number (dive_heap (plan_state pl) (dives_to_add pl ! (start_renumbering_at pl + k))) =
             last_number s + 1 + int k"
      by (simp add: state)
  qed
qed

lemma divetrip_update_same:
  "divetrip (dive_heap s d) = trip \<Longrightarrow>
     s\<lparr>dive_heap := (dive_heap s)(d := (dive_heap s d)\<lparr>divetrip := trip\<rparr>)\<rparr> = s"
  by (cases s) (auto simp: fun_eq_iff)

lemma merge_step_never_merge:
  "merge_step never_merge et dives_to prefer trip d ms =
     ms\<lparr>ms_delete_from := map_option (\<lambda>t. remove_dive t d) (ms_delete_from ms),
        ms_j := advance_j (ms_store ms) dives_to d (ms_j ms),
        ms_to_add := insert_dive (ms_store ms) (ms_to_add ms) d,
        ms_sequence_changed := (ms_sequence_changed ms \<or> \<not> dive_is_after_last (ms_store ms) d),
        ms_store := (ms_store ms)\<lparr>dive_heap := (dive_heap (ms_store ms))(d :=
                      (dive_heap (ms_store ms) d)\<lparr>divetrip := trip\<rparr>)\<rparr>\<rparr>"
  by (simp add: merge_step_def try_to_merge_into_def never_merge_def Let_def)

lemma no_flags_fields:
  "prefer_imported no_flags = False" "merge_all_trips no_flags = False"
  "is_downloaded no_flags = False" "add_to_new_trip no_flags = False"
  by (simp_all add: no_flags_def)

lemma log_ending_42_fields:
  "dive_table log_ending_42 = [4]" "trip_table log_ending_42 = []"
  "autogroup log_ending_42 = False" "next_dive log_ending_42 = 8"
  "dive_when (dive_heap log_ending_42 4) = 1000" "dive_when (dive_heap log_ending_42 5) = 5000"
  "dive_when (dive_heap log_ending_42 6) = 6000" "dive_when (dive_heap log_ending_42 7) = 7000"
  "divetrip (dive_heap log_ending_42 d) = None"
  "duration (dive_heap log_ending_42 5) = 600" "duration (dive_heap log_ending_42 6) = 600"
  "duration (dive_heap log_ending_42 7) = 600"
  "number (dive_heap log_ending_42 4) = 42" "number (dive_heap log_ending_42 5) = 0"
  "number (dive_heap log_ending_42 6) = 0" "number (dive_heap log_ending_42 7) = 0"
  by (simp_all add: log_ending_42_def empty_divelist_def zero_dive_def)

lemma log_ending_42_order:
  "dive_less_than log_ending_42 4 5" "dive_less_than log_ending_42 4 6"
  "dive_less_than log_ending_42 4 7" "dive_less_than log_ending_42 5 6"
  "dive_less_than log_ending_42 6 7" "dive_less_than log_ending_42 5 7"
  "\<not> dive_less_than log_ending_42 6 5" "\<not> dive_less_than log_ending_42 7 5"
  "\<not> dive_less_than log_ending_42 7 6"
  "comp_dives log_ending_42 5 6 \<le> 0" "comp_dives log_ending_42 6 7 \<le> 0"
  "comp_dives log_ending_42 5 7 \<le> 0"
  by (simp_all add: dive_less_than_def comp_dives_def Let_def log_ending_42_fields)

lemma plan_42:
  "plan_imported_dives never_merge when_plus_duration 259200 no_flags [5, 6, 7] []
     log_ending_42 =
   Some (\<lparr>plan_state = log_ending_42, import_table = [], import_trip_table = [],
          dives_to_add = [5, 6, 7], dives_to_remove = [], trips_to_add = [],
          sequence_changed = False, start_renumbering_at = 0\<rparr>, 1)"
proof -
  have srt: "sort_dive_table log_ending_42 [5, 6, 7] = [5, 6, 7]"
    by (simp add: sort_dive_table_def qsort_by_def log_ending_42_order)
  have mrg: "merge_imported_dives never_merge when_plus_duration [5, 6, 7] log_ending_42 =
      ([5, 6, 7], log_ending_42)"
    by (simp add: merge_imported_dives_def merge_imported_loop.simps log_ending_42_fields
        when_plus_duration_def Let_def)
  have grp: "autogroup_dives 259200 [5, 6, 7] [] log_ending_42 = ([], log_ending_42)"
    by (simp add: autogroup_dives_def log_ending_42_fields)
  have s5: "merge_step never_merge when_plus_duration [4] False None 5
      \<lparr>ms_j = 0, ms_last_merged_into = - 1, ms_sequence_changed = False,
        ms_delete_from = None, ms_to_add = [], ms_to_remove = [],
        ms_num_merged = 0, ms_store = log_ending_42\<rparr> =
      \<lparr>ms_j = Suc 0, ms_last_merged_into = - 1, ms_sequence_changed = False,
        ms_delete_from = None, ms_to_add = [5], ms_to_remove = [],
        ms_num_merged = 0, ms_store = log_ending_42\<rparr>"
    by (simp add: merge_step_never_merge advance_j.simps insert_dive_def add_to_table_def
        dive_is_after_last_def log_ending_42_fields log_ending_42_order divetrip_update_same)
  have s6: "merge_step never_merge when_plus_duration [4] False None 6
      \<lparr>ms_j = Suc 0, ms_last_merged_into = - 1, ms_sequence_changed = False,
        ms_delete_from = None, ms_to_add = [5], ms_to_remove = [],
        ms_num_merged = 0, ms_store = log_ending_42\<rparr> =
      \<lparr>ms_j = Suc 0, ms_last_merged_into = - 1, ms_sequence_changed = False,
        ms_delete_from = None, ms_to_add = [5, 6], ms_to_remove = [],
        ms_num_merged = 0, ms_store = log_ending_42\<rparr>"
    by (simp add: merge_step_never_merge advance_j.simps insert_dive_def add_to_table_def
        dive_is_after_last_def log_ending_42_fields log_ending_42_order divetrip_update_same)
  have s7: "merge_step never_merge when_plus_duration [4] False None 7
      \<lparr>ms_j = Suc 0, ms_last_merged_into = - 1, ms_sequence_changed = False,
        ms_delete_from = None, ms_to_add = [5, 6], ms_to_remove = [],
        ms_num_merged = 0, ms_store = log_ending_42\<rparr> =
      \<lparr>ms_j = Suc 0, ms_last_merged_into = - 1, ms_sequence_changed = False,
        ms_delete_from = None, ms_to_add = [5, 6, 7], ms_to_remove = [],
        ms_num_merged = 0, ms_store = log_ending_42\<rparr>"
    by (simp add: merge_step_never_merge advance_j.simps insert_dive_def add_to_table_def
        dive_is_after_last_def log_ending_42_fields log_ending_42_order divetrip_update_same)
  have tab: "merge_dive_tables never_merge when_plus_duration [5, 6, 7] None [4] False None
      [] [] 0 log_ending_42 =
      \<lparr>ms_j = Suc 0, ms_last_merged_into = - 1, ms_sequence_changed = False,
        ms_delete_from = None, ms_to_add = [5, 6, 7], ms_to_remove = [],
        ms_num_merged = 0, ms_store = log_ending_42\<rparr>"
    by (simp add: merge_dive_tables_def s5 s6 s7)
  have loop: "import_trips_loop never_merge when_plus_duration no_flags 0
      \<lparr>plan_state = log_ending_42, import_table = [5, 6, 7], import_trip_table = [],
       dives_to_add = [], dives_to_remove = [], trips_to_add = [],
       sequence_changed = False, start_renumbering_at = 0\<rparr> =
      Some \<lparr>plan_state = log_ending_42, import_table = [5, 6, 7], import_trip_table = [],
       dives_to_add = [], dives_to_remove = [], trips_to_add = [],
       sequence_changed = False, start_renumbering_at = 0\<rparr>"
    by (subst import_trips_loop.simps) simp
  have rest: "import_remaining_dives never_merge when_plus_duration no_flags
      \<lparr>plan_state = log_ending_42, import_table = [5, 6, 7], import_trip_table = [],
       dives_to_add = [], dives_to_remove = [], trips_to_add = [],
       sequence_changed = False, start_renumbering_at = 0\<rparr> =
      \<lparr>plan_state = log_ending_42, import_table = [], import_trip_table = [],
          dives_to_add = [5, 6, 7], dives_to_remove = [], trips_to_add = [],
          sequence_changed = False, start_renumbering_at = 0\<rparr>"
    by (simp add: import_remaining_dives_def no_flags_fields log_ending_42_fields tab Let_def)
  show ?thesis
    by (simp add: plan_imported_dives_def srt mrg grp loop rest no_flags_fields log_ending_42_fields)
qed

lemma late_numbered_log_fields:
  "dive_table late_numbered_log = [2, 3, 4]" "trip_table late_numbered_log = []"
  "autogroup late_numbered_log = False" "next_dive late_numbered_log = 8"
  "dive_when (dive_heap late_numbered_log 4) = 3000"
  "dive_when (dive_heap late_numbered_log 2) = 1000"
  "dive_when (dive_heap late_numbered_log 3) = 2000" "dive_when (dive_heap late_numbered_log 5) = 5000"
  "dive_when (dive_heap late_numbered_log 6) = 6000" "dive_when (dive_heap late_numbered_log 7) = 7000"
  "divetrip (dive_heap late_numbered_log d) = None"
  "duration (dive_heap late_numbered_log 5) = 600" "duration (dive_heap late_numbered_log 6) = 600"
  "duration (dive_heap late_numbered_log 7) = 600"
  "number (dive_heap late_numbered_log 4) = 1" "number (dive_heap late_numbered_log 5) = 0"
  "number (dive_heap late_numbered_log 6) = 0" "number (dive_heap late_numbered_log 7) = 0"
  by (simp_all add: late_numbered_log_def empty_divelist_def zero_dive_def)

lemma late_numbered_log_order:
  "dive_less_than late_numbered_log 4 5" "dive_less_than late_numbered_log 4 6"
  "dive_less_than late_numbered_log 4 7" "dive_less_than late_numbered_log 2 5"
  "dive_less_than late_numbered_log 3 5" "dive_less_than late_numbered_log 5 6"
  "dive_less_than late_numbered_log 6 7" "dive_less_than late_numbered_log 5 7"
  "\<not> dive_less_than late_numbered_log 6 5" "\<not> dive_less_than late_numbered_log 7 5"
  "\<not> dive_less_than late_numbered_log 7 6"
  "comp_dives late_numbered_log 5 6 \<le> 0" "comp_dives late_numbered_log 6 7 \<le> 0"
  "comp_dives late_numbered_log 5 7 \<le> 0"
  by (simp_all add: dive_less_than_def comp_dives_def Let_def late_numbered_log_fields)

lemma plan_late:
  "plan_imported_dives never_merge when_plus_duration 259200 no_flags [5, 6, 7] []
     late_numbered_log =
   Some (\<lparr>plan_state = late_numbered_log, import_table = [], import_trip_table = [],
          dives_to_add = [5, 6, 7], dives_to_remove = [], trips_to_add = [],
          sequence_changed = False, start_renumbering_at = 0\<rparr>, 3)"
proof -
  have srt: "sort_dive_table late_numbered_log [5, 6, 7] = [5, 6, 7]"
    by (simp add: sort_dive_table_def qsort_by_def late_numbered_log_order)
  have mrg: "merge_imported_dives never_merge when_plus_duration [5, 6, 7] late_numbered_log =
      ([5, 6, 7], late_numbered_log)"
    by (simp add: merge_imported_dives_def merge_imported_loop.simps late_numbered_log_fields
        when_plus_duration_def Let_def)
  have grp: "autogroup_dives 259200 [5, 6, 7] [] late_numbered_log = ([], late_numbered_log)"
    by (simp add: autogroup_dives_def late_numbered_log_fields)
  have s5: "merge_step never_merge when_plus_duration [2, 3, 4] False None 5
      \<lparr>ms_j = 0, ms_last_merged_into = - 1, ms_sequence_changed = False,
        ms_delete_from = None, ms_to_add = [], ms_to_remove = [],
        ms_num_merged = 0, ms_store = late_numbered_log\<rparr> =
      \<lparr>ms_j = 3, ms_last_merged_into = - 1, ms_sequence_changed = False,
        ms_delete_from = None, ms_to_add = [5], ms_to_remove = [],
        ms_num_merged = 0, ms_store = late_numbered_log\<rparr>"
    by (simp add: merge_step_never_merge advance_j.simps insert_dive_def add_to_table_def
        dive_is_after_last_def late_numbered_log_fields late_numbered_log_order divetrip_update_same)
  have s6: "merge_step never_merge when_plus_duration [2, 3, 4] False None 6
      \<lparr>ms_j = 3, ms_last_merged_into = - 1, ms_sequence_changed = False,
        ms_delete_from = None, ms_to_add = [5], ms_to_remove = [],
        ms_num_merged = 0, ms_store = late_numbered_log\<rparr> =
      \<lparr>ms_j = 3, ms_last_merged_into = - 1, ms_sequence_changed = False,
        ms_delete_from = None, ms_to_add = [5, 6], ms_to_remove = [],
        ms_num_merged = 0, ms_store = late_numbered_log\<rparr>"
    by (simp add: merge_step_never_merge advance_j.simps insert_dive_def add_to_table_def
        dive_is_after_last_def late_numbered_log_fields late_numbered_log_order divetrip_update_same)
  have s7: "merge_step never_merge when_plus_duration [2, 3, 4] False None 7
      \<lparr>ms_j = 3, ms_last_merged_into = - 1, ms_sequence_changed = False,
        ms_delete_from = None, ms_to_add = [5, 6], ms_to_remove = [],
        ms_num_merged = 0, ms_store = late_numbered_log\<rparr> =
      \<lparr>ms_j = 3, ms_last_merged_into = - 1, ms_sequence_changed = False,
        ms_delete_from = None, ms_to_add = [5, 6, 7], ms_to_remove = [],
        ms_num_merged = 0, ms_store = late_numbered_log\<rparr>"
    by (simp add: merge_step_never_merge advance_j.simps insert_dive_def add_to_table_def
        dive_is_after_last_def late_numbered_log_fields late_numbered_log_order divetrip_update_same)
  have tab: "merge_dive_tables never_merge when_plus_duration [5, 6, 7] None [2, 3, 4] False None
      [] [] 0 late_numbered_log =
      \<lparr>ms_j = 3, ms_last_merged_into = - 1, ms_sequence_changed = False,
        ms_delete_from = None, ms_to_add = [5, 6, 7], ms_to_remove = [],
        ms_num_merged = 0, ms_store = late_numbered_log\<rparr>"
    by (simp add: merge_dive_tables_def s5 s6 s7)
  have loop: "import_trips_loop never_merge when_plus_duration no_flags 0
      \<lparr>plan_state = late_numbered_log, import_table = [5, 6, 7], import_trip_table = [],
       dives_to_add = [], dives_to_remove = [], trips_to_add = [],
       sequence_changed = False, start_renumbering_at = 0\<rparr> =
      Some \<lparr>plan_state = late_numbered_log, import_table = [5, 6, 7], import_trip_table = [],
       dives_to_add = [], dives_to_remove = [], trips_to_add = [],
       sequence_changed = False, start_renumbering_at = 0\<rparr>"
    by (subst import_trips_loop.simps) simp
  have rest: "import_remaining_dives never_merge when_plus_duration no_flags
      \<lparr>plan_state = late_numbered_log, import_table = [5, 6, 7], import_trip_table = [],
       dives_to_add = [], dives_to_remove = [], trips_to_add = [],
       sequence_changed = False, start_renumbering_at = 0\<rparr> =
      \<lparr>plan_state = late_numbered_log, import_table = [], import_trip_table = [],
          dives_to_add = [5, 6, 7], dives_to_remove = [], trips_to_add = [],
          sequence_changed = False, start_renumbering_at = 0\<rparr>"
    by (simp add: import_remaining_dives_def no_flags_fields late_numbered_log_fields tab Let_def)
  show ?thesis
    by (simp add: plan_imported_dives_def srt mrg grp loop rest no_flags_fields late_numbered_log_fields)
qed

text \<open>
  A log of one dive, numbered 42, and three numberless dives imported after it: the
  guard holds (42 is at least 1) and the added dives are numbered 43, 44, 45.
\<close>

lemma process_imported_dives_log_ending_42:
  "last_number log_ending_42 = 42 \<and> length (dive_table log_ending_42) = 1 \<and>
   \<not> new_dive_has_number log_ending_42 [5, 6, 7] \<and>
   map_option sequence_changed
     (process_imported_dives never_merge when_plus_duration 259200 no_flags [5, 6, 7] []
        log_ending_42) = Some False \<and>
   map_option dives_to_add
     (process_imported_dives never_merge when_plus_duration 259200 no_flags [5, 6, 7] []
        log_ending_42) = Some [5, 6, 7] \<and>
   map_option added_numbers
     (process_imported_dives never_merge when_plus_duration 259200 no_flags [5, 6, 7] []
        log_ending_42) = Some [43, 44, 45]"
proof -
  define P where "P = renumber_added (new_dive_has_number log_ending_42 [5, 6, 7]) 1
      \<lparr>plan_state = log_ending_42, import_table = [], import_trip_table = [],
       dives_to_add = [5, 6, 7], dives_to_remove = [], trips_to_add = [],
       sequence_changed = False, start_renumbering_at = 0\<rparr>"
  have run: "process_imported_dives never_merge when_plus_duration 259200 no_flags [5, 6, 7] []
        log_ending_42 = Some P"
    by (simp add: process_imported_dives_def plan_42 P_def)
  have fields: "dives_to_add P = [5, 6, 7]" "start_renumbering_at P = 0" "\<not> sequence_changed P"
    by (simp_all add: P_def)
  have allocated: "\<forall>d \<in> set (dive_table log_ending_42). d < next_dive log_ending_42"
    by (simp add: log_ending_42_fields)
  have numberless: "\<forall>d \<in> set [5, 6, 7]. \<not> number (dive_heap log_ending_42 d) > 0"
    by (simp add: log_ending_42_fields)
  have last: "last_number log_ending_42 = 42"
    by (simp add: last_number_def log_ending_42_fields)
  have numbered: "last_number log_ending_42 \<ge> int (length (dive_table log_ending_42))"
    by (simp add: last log_ending_42_fields)
  have once: "distinct (drop (start_renumbering_at P) (dives_to_add P))"
    by (simp add: fields)
  note r = renumbering_when_guard_holds [OF run allocated fields(3) numberless numbered once,
      unfolded fields last, rule_format]
  have "number (dive_heap (plan_state P) 5) = 43" using r [of 0] by simp
  moreover have "number (dive_heap (plan_state P) 6) = 44" using r [of 1] by simp
  moreover have "number (dive_heap (plan_state P) 7) = 45" using r [of 2] by simp
  ultimately have "added_numbers P = [43, 44, 45]"
    by (simp add: added_numbers_def fields)
  with run fields last numberless show ?thesis
    by (simp add: new_dive_has_number_def log_ending_42_fields)
qed

text \<open>
  Claim C1. When the sequence did not change, the prior last dive of the global dive
  table had a non-zero number and no incoming dive carried a number, the added dives
  are to be numbered consecutively from that number plus one. The comment above the
  renumbering block asks for the same (the last dive in the old dive table had a number
  itself), and so does \<open>get_dive_nr_at_idx\<close> for a dive added at the end of the log.
  The code does something else: it renumbers only if that number is at least the
  number of dives in the global table (\<open>nr >= preexisting\<close>). With three dives in the
  table, the last one numbered 1, and three numberless dives imported after it,
  \<open>process_imported_dives\<close> returns, the sequence has not changed, nothing was merged,
  \<open>get_dive_nr_at_idx\<close> gives 2 for a dive added at the end, and the three added dives
  are left with number 0 instead of 2, 3, 4.
\<close>

theorem process_imported_dives_leaves_unnumbered:
  "last_number late_numbered_log = 1 \<and> length (dive_table late_numbered_log) = 3 \<and>
   new_dive_has_number late_numbered_log [5, 6, 7] = False \<and>
   get_dive_nr_at_idx late_numbered_log 3 = 2 \<and>
   map_option sequence_changed
     (process_imported_dives never_merge when_plus_duration 259200 no_flags [5, 6, 7] []
        late_numbered_log) = Some False \<and>
   map_option dives_to_add
     (process_imported_dives never_merge when_plus_duration 259200 no_flags [5, 6, 7] []
        late_numbered_log) = Some [5, 6, 7] \<and>
   map_option dives_to_remove
     (process_imported_dives never_merge when_plus_duration 259200 no_flags [5, 6, 7] []
        late_numbered_log) = Some [] \<and>
   map_option start_renumbering_at
     (process_imported_dives never_merge when_plus_duration 259200 no_flags [5, 6, 7] []
        late_numbered_log) = Some 0 \<and>
   map_option added_numbers
     (process_imported_dives never_merge when_plus_duration 259200 no_flags [5, 6, 7] []
        late_numbered_log) = Some [0, 0, 0] \<and>
   map_option added_numbers
     (process_imported_dives never_merge when_plus_duration 259200 no_flags [5, 6, 7] []
        late_numbered_log) \<noteq> Some [2, 3, 4]"
proof -
  have nh: "\<not> new_dive_has_number late_numbered_log [5, 6, 7]"
    by (simp add: new_dive_has_number_def late_numbered_log_fields)
  have run: "process_imported_dives never_merge when_plus_duration 259200 no_flags [5, 6, 7] []
        late_numbered_log =
      Some \<lparr>plan_state = late_numbered_log, import_table = [], import_trip_table = [],
          dives_to_add = [5, 6, 7], dives_to_remove = [], trips_to_add = [],
          sequence_changed = False, start_renumbering_at = 0\<rparr>"
    by (simp add: process_imported_dives_def plan_late renumber_added_def nh
        late_numbered_log_fields)
  show ?thesis
    by (simp add: run nh added_numbers_def last_number_def get_dive_nr_at_idx_def
        late_numbered_log_fields)
qed

end
